theory Spec2Isabelle
  imports Main
begin

text \<open>
  A model of the document converter of \<open>src/App.tsx\<close> and proofs about it. The file holds
  three successive versions of the component; the model follows the one that reads
  Markdown, CSV and ZIP files and writes PDF or JSON (\<open>csvToMarkdownTable\<close>,
  \<open>sanitizeFilenameForHeader\<close>, \<open>combinedMarkdown\<close>, \<open>processFiles\<close> with \<open>handleFile\<close>,
  \<open>removeFile\<close>, \<open>handleDownload\<close>). The definitions of the model come first, in the
  order of the source; the properties follow.
\<close>

section \<open>Strings of the source language\<close>

text \<open>
  A source string is a list of code units. The development covers the strings whose code
  units are below 256, one \<^typ>\<open>char\<close> each, which is where every character the program
  inspects lives (quotes, commas, pipes, line breaks, the extension letters, white space).
\<close>

definition dquote :: char where
  "dquote = CHR 0x22"

definition comma :: char where
  "comma = CHR 0x2C"

definition backslash :: char where
  "backslash = CHR 0x5C"

definition pipe :: char where
  "pipe = CHR 0x7C"

definition CR :: char where
  "CR = CHR 0x0D"

definition LF :: char where
  "LF = CHR 0x0A"

text \<open>
  White space as \<open>String.prototype.trim\<close> sees it: tab, line feed, vertical tab, form feed,
  carriage return, space and the no-break space.
\<close>

definition is_space :: "char \<Rightarrow> bool" where
  "is_space c = (c \<in> set [CHR 0x09, CHR 0x0A, CHR 0x0B, CHR 0x0C, CHR 0x0D, CHR 0x20, CHR 0xA0])"

definition trim :: "string \<Rightarrow> string" where
  "trim s = rev (dropWhile is_space (rev (dropWhile is_space s)))"

text \<open>\<open>Array.prototype.join\<close> on an array of strings.\<close>

fun join :: "string \<Rightarrow> string list \<Rightarrow> string" where
  "join sep [] = []"
| "join sep [x] = x"
| "join sep (x # y # ys) = x @ sep @ join sep (y # ys)"

text \<open>
  \<open>content.split(/\r?\n/)\<close>: the scan goes left to right, a carriage return directly before
  a line feed belongs to the separator, any other carriage return stays in its line. The
  result always has at least one piece.
\<close>

fun split_lines :: "string \<Rightarrow> string list" where
  "split_lines [] = [[]]"
| "split_lines (c # cs) =
     (if c = CR \<and> cs \<noteq> [] \<and> hd cs = LF then [] # split_lines (tl cs)
      else if c = LF then [] # split_lines cs
      else (case split_lines cs of
              [] \<Rightarrow> [[c]]
            | l # ls \<Rightarrow> (c # l) # ls))"

section \<open>The CSV row tokenizer\<close>

text \<open>
  \<open>parseCsvRow\<close> runs the regular expression
  \<^verbatim>\<open>/(?:"((?:""|[^"])*)"|([^,]*))(,|$)/g\<close>
  repeatedly over the row. The matcher below follows the backtracking order of the
  expression at one start position.

  \<open>star_splits s\<close> lists every way the starred group \<^verbatim>\<open>(?:""|[^"])*\<close> can stop inside \<open>s\<close>,
  as (text consumed, text left), in the order the matcher tries them: the longest first,
  then one iteration fewer, down to no iteration.
\<close>

fun star_splits :: "string \<Rightarrow> (string \<times> string) list" where
  "star_splits [] = [([], [])]"
| "star_splits (c # cs) =
     (if c \<noteq> dquote then map (\<lambda>(b, r). (c # b, r)) (star_splits cs)
      else (case cs of
              [] \<Rightarrow> []
            | d # ds \<Rightarrow>
                if d = dquote then map (\<lambda>(b, r). (c # d # b, r)) (star_splits ds) else []))
     @ [([], c # cs)]"

text \<open>
  What has to follow the starred group in the first alternative: the closing quote and
  then group 3, a comma or the end of the input. The result is (group 3, input left).
\<close>

fun closing :: "string \<Rightarrow> (string \<times> string) option" where
  "closing [] = None"
| "closing (q # r) =
     (if q \<noteq> dquote then None
      else (case r of
              [] \<Rightarrow> Some ([], [])
            | k # r' \<Rightarrow> if k = comma then Some ([comma], r') else None))"

fun first_closing :: "(string \<times> string) list \<Rightarrow> (string \<times> string \<times> string) option" where
  "first_closing [] = None"
| "first_closing ((b, r) # alts) =
     (case closing r of
        Some (g3, rest) \<Rightarrow> Some (b, g3, rest)
      | None \<Rightarrow> first_closing alts)"

text \<open>Which of the two capturing alternatives matched, with its text.\<close>

datatype capture = Group1 string | Group2 string

text \<open>
  One \<open>regex.exec\<close> at the current position: the quoted alternative is tried first, and
  when it fails the bare alternative \<^verbatim>\<open>([^,]*)(,|$)\<close> takes everything up to the next
  comma or the end, which always succeeds, so a match always starts where the previous
  one ended. The result is the capture, group 3 and the input after the match.
\<close>

definition bare_match :: "string \<Rightarrow> capture \<times> string \<times> string" where
  "bare_match s =
     (case dropWhile (\<lambda>c. c \<noteq> comma) s of
        [] \<Rightarrow> (Group2 (takeWhile (\<lambda>c. c \<noteq> comma) s), [], [])
      | k # r \<Rightarrow> (Group2 (takeWhile (\<lambda>c. c \<noteq> comma) s), [comma], r))"

definition regex_exec :: "string \<Rightarrow> capture \<times> string \<times> string" where
  "regex_exec s =
     (case s of
        [] \<Rightarrow> bare_match s
      | c # cs \<Rightarrow>
          if c = dquote then
            (case first_closing (star_splits cs) of
               Some (b, g3, rest) \<Rightarrow> (Group1 b, g3, rest)
             | None \<Rightarrow> bare_match s)
          else bare_match s)"

text \<open>\<open>match[1].replace(/""/g, '"')\<close>: left to right, without overlap.\<close>

fun replace_dquotes :: "string \<Rightarrow> string" where
  "replace_dquotes [] = []"
| "replace_dquotes [c] = [c]"
| "replace_dquotes (c # d # cs) =
     (if c = dquote \<and> d = dquote then dquote # replace_dquotes cs
      else c # replace_dquotes (d # cs))"

definition match_value :: "capture \<Rightarrow> string" where
  "match_value m = (case m of Group1 q \<Rightarrow> replace_dquotes q | Group2 u \<Rightarrow> u)"

lemma closing_shorter:
  "closing r = Some (g3, rest) \<Longrightarrow> length rest < length r"
  by (cases r) (auto split: if_splits list.splits)

lemma star_splits_shorter:
  "(b, r) \<in> set (star_splits s) \<Longrightarrow> length r \<le> length s"
  by (induction s arbitrary: b r rule: star_splits.induct)
     (fastforce split: if_splits list.splits)+

lemma first_closing_shorter:
  "first_closing alts = Some (b, g3, rest) \<Longrightarrow>
   \<exists>b' r. (b', r) \<in> set alts \<and> length rest < length r"
proof (induction alts)
  case Nil
  then show ?case by simp
next
  case (Cons a alts)
  obtain b0 r0 where a: "a = (b0, r0)"
    by (cases a) auto
  show ?case
  proof (cases "closing r0")
    case None
    with Cons a show ?thesis by auto
  next
    case (Some t)
    with Cons.prems a have "closing r0 = Some (g3, rest)"
      by (cases t) auto
    then have "length rest < length r0"
      by (rule closing_shorter)
    with a show ?thesis by auto
  qed
qed

lemma bare_match_shorter:
  "bare_match s = (m, g3, rest) \<Longrightarrow> g3 \<noteq> [] \<Longrightarrow> length rest < length s"
proof -
  assume a: "bare_match s = (m, g3, rest)" and b: "g3 \<noteq> []"
  have "length (dropWhile (\<lambda>c. c \<noteq> comma) s) \<le> length s"
    by (rule length_dropWhile_le)
  with a b show ?thesis
    by (auto simp: bare_match_def split: list.splits)
qed

lemma regex_exec_shorter:
  assumes "regex_exec s = (m, g3, rest)" and "g3 \<noteq> []"
  shows "length rest < length s"
proof (cases s)
  case Nil
  with assms show ?thesis
    by (simp add: regex_exec_def bare_match_def)
next
  case (Cons c cs)
  show ?thesis
  proof (cases "c = dquote")
    case False
    with Cons assms show ?thesis
      by (auto simp: regex_exec_def dest: bare_match_shorter)
  next
    case True
    show ?thesis
    proof (cases "first_closing (star_splits cs)")
      case None
      with True Cons assms show ?thesis
        by (auto simp: regex_exec_def dest: bare_match_shorter)
    next
      case (Some t)
      obtain b g r where t: "t = (b, g, r)"
        by (cases t) auto
      from Some t obtain b' r' where "(b', r') \<in> set (star_splits cs)" "length r < length r'"
        using first_closing_shorter by blast
      then have "length r < length cs"
        using star_splits_shorter by fastforce
      with True Cons assms Some t show ?thesis
        by (auto simp: regex_exec_def)
    qed
  qed
qed

text \<open>
  The loop of \<open>parseCsvRow\<close>: push the trimmed value, stop when group 3 is empty, else go
  on behind the comma.
\<close>

function parseCsvRow :: "string \<Rightarrow> string list" where
  "parseCsvRow row =
     (case regex_exec row of
        (m, g3, rest) \<Rightarrow>
          trim (match_value m) # (if g3 = [] then [] else parseCsvRow rest))"
  by pat_completeness auto
termination
  by (relation "measure length") (auto dest: regex_exec_shorter [OF sym])

declare parseCsvRow.simps [simp del]

section \<open>CSV to Markdown table\<close>

text \<open>\<open>cell.replace(/\|/g, '\\|')\<close>: every pipe gets a backslash in front.\<close>

definition escape_pipes :: "string \<Rightarrow> string" where
  "escape_pipes cell = concat (map (\<lambda>c. if c = pipe then [backslash, pipe] else [c]) cell)"

text \<open>
  \<open>Array.from({ length: header.length }, (_, i) => cells[i] || '')\<close>: an index beyond the
  cells reads \<open>undefined\<close>, which like the empty string gives way to \<open>''\<close>.
\<close>

definition adjustedCells :: "nat \<Rightarrow> string list \<Rightarrow> string list" where
  "adjustedCells n cells =
     map (\<lambda>i. if i < length cells \<and> cells ! i \<noteq> [] then cells ! i else []) [0..<n]"

definition csv_row :: "string list \<Rightarrow> string \<Rightarrow> string" where
  "csv_row header line =
     (let cells = parseCsvRow line;
          adjusted = adjustedCells (length header) cells
      in join '' | '' (map escape_pipes adjusted))"

definition csvToMarkdownTable :: "string \<Rightarrow> string" where
  "csvToMarkdownTable csv =
     (let content = trim csv in
      if content = [] then []
      else
        let lines = split_lines content in
        if length lines = 0 then []
        else
          let header = parseCsvRow (lines ! 0);
              separator = join '' | '' (map (\<lambda>_. ''---'') header);
              rows = join [LF]
                       (map (\<lambda>row. ''| '' @ row @ '' |'')
                          (map (csv_row header)
                             (filter (\<lambda>line. trim line \<noteq> []) (drop 1 lines))))
          in ''| '' @ join '' | '' header @ '' |'' @ [LF]
               @ ''| '' @ separator @ '' |'' @ [LF] @ rows)"

section \<open>File names\<close>

text \<open>
  The \<open>i\<close> flag compares code units after canonicalization. The patterns of this program
  hold only ASCII letters and the dot, and no code unit from 128 to 255 canonicalizes to
  an ASCII letter, so it is enough to fold \<open>a\<close>..\<open>z\<close> onto \<open>A\<close>..\<open>Z\<close> and to leave every other
  code unit as its own number.
\<close>

definition canonicalize :: "char \<Rightarrow> nat" where
  "canonicalize c = (let n = of_char c in if 97 \<le> n \<and> n \<le> 122 then n - 32 else n)"

text \<open>
  A pattern \<open>\.ext$\<close> tried at one start position, \<open>s\<close> being the input from that position
  on: the whole of \<open>s\<close> has to be the extension.
\<close>

definition ext_at :: "string list \<Rightarrow> string \<Rightarrow> bool" where
  "ext_at exts s = (\<exists>e \<in> set exts. map canonicalize s = map canonicalize e)"

text \<open>\<open>regex.test(name)\<close>: some start position matches.\<close>

fun regex_test :: "(string \<Rightarrow> bool) \<Rightarrow> string \<Rightarrow> bool" where
  "regex_test at [] = at []"
| "regex_test at (c # cs) = (at (c # cs) \<or> regex_test at cs)"

text \<open>
  \<open>name.replace(regex, '')\<close> for a pattern that ends in \<open>$\<close>: the leftmost match is
  removed, and it reaches to the end of the name.
\<close>

fun regex_remove :: "(string \<Rightarrow> bool) \<Rightarrow> string \<Rightarrow> string" where
  "regex_remove at [] = []"
| "regex_remove at (c # cs) = (if at (c # cs) then [] else c # regex_remove at cs)"

definition doc_exts :: "string list" where
  "doc_exts = [''.md'', ''.markdown'', ''.csv'']"

definition is_zip_name :: "string \<Rightarrow> bool" where
  "is_zip_name fileName = regex_test (ext_at [''.zip'']) fileName"

definition is_csv_name :: "string \<Rightarrow> bool" where
  "is_csv_name fileName = regex_test (ext_at [''.csv'']) fileName"

definition is_doc_name :: "string \<Rightarrow> bool" where
  "is_doc_name fileName = regex_test (ext_at doc_exts) fileName"

definition strip_doc_ext :: "string \<Rightarrow> string" where
  "strip_doc_ext fileName = regex_remove (ext_at doc_exts) fileName"

text \<open>
  The character class \<^verbatim>\<open>[\\`*_{}[\]()#+-.!]\<close> of \<open>sanitizeFilenameForHeader\<close>, member by
  member; \<^verbatim>\<open>+-.\<close> in it is a range, from the plus sign (43) to the full stop (46).
\<close>

definition header_class :: "char \<Rightarrow> bool" where
  "header_class c =
     (c = backslash \<or> c \<in> set ''`*_{}[]()#''
      \<or> (of_char (CHR ''+'') \<le> (of_char c :: nat) \<and> (of_char c :: nat) \<le> of_char (CHR ''.''))
      \<or> c = CHR ''!'')"

definition sanitizeFilenameForHeader :: "string \<Rightarrow> string" where
  "sanitizeFilenameForHeader name =
     (let extensionless = strip_doc_ext name
      in concat (map (\<lambda>c. if header_class c then [backslash, c] else [c]) extensionless))"


section \<open>Application state\<close>

record UploadedFile =
  uf_id :: string
  uf_name :: string
  uf_content :: string

datatype output_format = PDF | JSON

record app_state =
  files :: "UploadedFile list"
  isLoading :: bool
  isJoining :: bool
  outputFormat :: output_format
  statusMessage :: string
  error :: "string option"

definition initial_state :: app_state where
  "initial_state =
     \<lparr>files = [], isLoading = False, isJoining = True, outputFormat = PDF,
      statusMessage = [], error = None\<rparr>"

definition MAX_FILES :: nat where
  "MAX_FILES = 100"

definition MAX_FILE_SIZE_MB :: nat where
  "MAX_FILE_SIZE_MB = 5"

definition MAX_FILE_SIZE_BYTES :: nat where
  "MAX_FILE_SIZE_BYTES = MAX_FILE_SIZE_MB * 1024 * 1024"

definition MAX_ZIP_FILE_SIZE_MB :: nat where
  "MAX_ZIP_FILE_SIZE_MB = 25"

definition MAX_ZIP_FILE_SIZE_BYTES :: nat where
  "MAX_ZIP_FILE_SIZE_BYTES = MAX_ZIP_FILE_SIZE_MB * 1024 * 1024"

text \<open>A number inside a template string: its decimal digits.\<close>

fun decimal :: "nat \<Rightarrow> string" where
  "decimal n =
     (if n < 10 then [''0123456789'' ! n]
      else decimal (n div 10) @ [''0123456789'' ! (n mod 10)])"

declare decimal.simps [simp del]

section \<open>The combined document\<close>

definition combinedMarkdown :: "app_state \<Rightarrow> string" where
  "combinedMarkdown s =
     (if \<not> isJoining s \<or> length (files s) = 0 then []
      else join ([LF, LF] @ ''---'' @ [LF, LF])
             (map (\<lambda>file. ''# '' @ sanitizeFilenameForHeader (uf_name file)
                            @ [LF, LF] @ uf_content file)
                (files s)))"


section \<open>Ingestion\<close>

text \<open>
  What the platform hands to the program for one dropped file: its name and size, what
  \<open>FileReader.readAsText\<close> delivers (\<open>None\<close> when \<open>onerror\<close> fires), what
  \<open>JSZip.loadAsync\<close> resolves to, as \<open>Object.values(zip.files)\<close> (\<open>None\<close> when it rejects),
  and the readings of \<open>Date.now()\<close> and \<open>Math.random()\<close> taken when its record is made.
  A member of an archive has its name, its directory flag, what \<open>async('string')\<close> resolves
  to (\<open>None\<close> when it rejects) and its two readings.
\<close>

record ZipEntry =
  entry_name :: string
  entry_dir :: bool
  entry_string :: "string option"
  entry_now :: nat
  entry_random :: string

record File =
  file_name :: string
  file_size :: nat
  file_text :: "string option"
  file_zip :: "ZipEntry list option"
  file_now :: nat
  file_random :: string

definition processSingleFile :: "nat \<Rightarrow> string \<Rightarrow> string \<Rightarrow> string \<Rightarrow> UploadedFile" where
  "processSingleFile now random fileName content =
     (let processedContent = (if is_csv_name fileName then csvToMarkdownTable content else content)
      in \<lparr>uf_id = fileName @ ''-'' @ decimal now @ ''-'' @ random,
          uf_name = fileName,
          uf_content = processedContent\<rparr>)"

text \<open>
  \<open>Promise.all\<close>: the values in the order of the promises when all resolve, else one
  rejection. When several promises reject, the source reports the one that rejects first
  in time: the size and library checks of \<open>handleFile\<close> reject at once, in the order of
  the list, a failed read later. The model reports the first rejection in the order of the
  list; which message a batch reports is used nowhere below, only that there is one.
\<close>

fun Promise_all :: "('e + 'a) list \<Rightarrow> 'e + 'a list" where
  "Promise_all [] = Inr []"
| "Promise_all (Inl e # ps) = Inl e"
| "Promise_all (Inr v # ps) = (case Promise_all ps of Inl e \<Rightarrow> Inl e | Inr vs \<Rightarrow> Inr (v # vs))"

definition wanted_entry :: "ZipEntry \<Rightarrow> bool" where
  "wanted_entry zipEntry = (\<not> entry_dir zipEntry \<and> is_doc_name (entry_name zipEntry))"

definition read_entry :: "ZipEntry \<Rightarrow> unit + UploadedFile" where
  "read_entry zipEntry =
     (case entry_string zipEntry of
        None \<Rightarrow> Inl ()
      | Some content \<Rightarrow>
          Inr (processSingleFile (entry_now zipEntry) (entry_random zipEntry)
                 (entry_name zipEntry) content))"

text \<open>
  \<open>handleFile\<close>, with \<open>Inl\<close> for \<open>reject(new Error(message))\<close> and \<open>Inr\<close> for \<open>resolve\<close>. The
  first argument tells whether \<open>window.JSZip\<close> is there. A read that succeeds delivers a
  string, so the \<open>catch\<close> inside \<open>reader.onload\<close> has no case here.
\<close>

definition handleFile :: "bool \<Rightarrow> File \<Rightarrow> string + UploadedFile list" where
  "handleFile jszip file =
     (if is_zip_name (file_name file) then
        if file_size file > MAX_ZIP_FILE_SIZE_BYTES then
          Inl (''ZIP '' @ [dquote] @ file_name file @ [dquote] @ '' is larger than ''
               @ decimal MAX_ZIP_FILE_SIZE_MB @ ''MB.'')
        else if \<not> jszip then Inl ''ZIP library not loaded. Please refresh.''
        else
          (case file_zip file of
             None \<Rightarrow>
               Inl (''Failed to process ZIP file '' @ [dquote] @ file_name file @ [dquote]
                    @ ''. It may be corrupt.'')
           | Some entries \<Rightarrow>
               (case Promise_all (map read_entry (filter wanted_entry entries)) of
                  Inl _ \<Rightarrow>
                    Inl (''Failed to process ZIP file '' @ [dquote] @ file_name file @ [dquote]
                         @ ''. It may be corrupt.'')
                | Inr filesFromZip \<Rightarrow> Inr filesFromZip))
      else if is_doc_name (file_name file) then
        if file_size file > MAX_FILE_SIZE_BYTES then
          Inl ([dquote] @ file_name file @ [dquote] @ '' is larger than ''
               @ decimal MAX_FILE_SIZE_MB @ ''MB.'')
        else
          (case file_text file of
             None \<Rightarrow> Inl (''Failed to read '' @ [dquote] @ file_name file @ [dquote] @ ''.'')
           | Some content \<Rightarrow>
               Inr [processSingleFile (file_now file) (file_random file) (file_name file) content])
      else Inr [])"

text \<open>
  \<open>processFiles\<close>. The callback is made anew when the length of the list changes and keeps
  that length as \<open>files.length\<close>: the guard, the test for overflow and \<open>spaceLeft\<close> read it.
  The reads of the batch are awaited, and only then \<open>setFiles\<close> runs its updater on
  \<open>currentFiles\<close>, the list as it is at that moment. So the function takes the length the
  callback holds (\<open>filesLength\<close>) apart from the state its updates land in (\<open>s\<close>); the two
  agree when no other update of the list comes between the call and its end.
\<close>

definition processFiles :: "bool \<Rightarrow> nat \<Rightarrow> File list \<Rightarrow> app_state \<Rightarrow> app_state" where
  "processFiles jszip filesLength droppedFiles s =
     (if filesLength \<ge> MAX_FILES then
        s\<lparr>error := Some (''You have reached the maximum of '' @ decimal MAX_FILES @ '' files.'')\<rparr>
      else
        (case Promise_all (map (handleFile jszip) droppedFiles) of
           Inl message \<Rightarrow> s\<lparr>error := Some message, isLoading := False, statusMessage := []\<rparr>
         | Inr nestedNewFiles \<Rightarrow>
             let newFiles = concat nestedNewFiles in
             if filesLength + length newFiles > MAX_FILES then
               let spaceLeft = MAX_FILES - filesLength in
               s\<lparr>error := Some (''Adding these files would exceed the limit of ''
                                @ decimal MAX_FILES @ ''. Only a portion were added.''),
                  files := files s @ take spaceLeft newFiles,
                  isLoading := False, statusMessage := []\<rparr>
             else
               s\<lparr>error := None, files := files s @ newFiles,
                  isLoading := False, statusMessage := []\<rparr>))"

definition removeFile :: "string \<Rightarrow> app_state \<Rightarrow> app_state" where
  "removeFile fileId s = s\<lparr>files := filter (\<lambda>file. uf_id file \<noteq> fileId) (files s)\<rparr>"

text \<open>The \<open>Clear All\<close> button: \<open>setFiles([])\<close>.\<close>

definition clearAll :: "app_state \<Rightarrow> app_state" where
  "clearAll s = s\<lparr>files := []\<rparr>"



section \<open>Download\<close>

text \<open>
  The values the program hands to \<open>JSON.stringify\<close>: strings, arrays, and objects as their
  properties in order.
\<close>

datatype json = JString string | JArray "json list" | JObject "(string \<times> json) list"

text \<open>
  \<open>QuoteJSONString\<close>: the double quote, the backslash and the control characters with a
  short form get it, any other code unit below 32 is written \<open>\u00XX\<close> in lower-case
  hexadecimal, every other code unit stands for itself.
\<close>

definition json_char :: "char \<Rightarrow> string" where
  "json_char c =
     (if c = CHR 0x08 then [backslash, CHR ''b'']
      else if c = CHR 0x09 then [backslash, CHR ''t'']
      else if c = LF then [backslash, CHR ''n'']
      else if c = CHR 0x0C then [backslash, CHR ''f'']
      else if c = CR then [backslash, CHR ''r'']
      else if c = dquote then [backslash, dquote]
      else if c = backslash then [backslash, backslash]
      else if (of_char c :: nat) < 32 then
        [backslash, CHR ''u'', CHR ''0'', CHR ''0'',
         ''0123456789abcdef'' ! ((of_char c :: nat) div 16),
         ''0123456789abcdef'' ! ((of_char c :: nat) mod 16)]
      else [c])"

definition QuoteJSONString :: "string \<Rightarrow> string" where
  "QuoteJSONString s = [dquote] @ concat (map json_char s) @ [dquote]"

text \<open>
  \<open>JSON.stringify(value, null, gap)\<close> at a given indentation: an empty array or object is
  written closed at once; otherwise each element or member goes on a line of its own, one
  \<open>gap\<close> deeper, and a member has a space after its colon when the gap is not empty.
\<close>

fun serialize :: "string \<Rightarrow> string \<Rightarrow> json \<Rightarrow> string" where
  "serialize gap indent (JString s) = QuoteJSONString s"
| "serialize gap indent (JArray xs) =
     (if xs = [] then ''[]''
      else ''['' @ [LF] @ (indent @ gap)
           @ join ('','' @ [LF] @ (indent @ gap)) (map (serialize gap (indent @ gap)) xs)
           @ [LF] @ indent @ '']'')"
| "serialize gap indent (JObject ms) =
     (if ms = [] then ''{}''
      else ''{'' @ [LF] @ (indent @ gap)
           @ join ('','' @ [LF] @ (indent @ gap))
               (map (\<lambda>(k, v). QuoteJSONString k @ '':'' @ (if gap = [] then [] else '' '')
                                @ serialize gap (indent @ gap) v) ms)
           @ [LF] @ indent @ ''}'')"

definition JSON_stringify :: "json \<Rightarrow> nat \<Rightarrow> string" where
  "JSON_stringify v space = serialize (replicate (min space 10) (CHR '' '')) [] v"

text \<open>
  The libraries the page loads, each there or not; and \<open>createPdf\<close>, which belongs to the
  PDF branch, taken as given: for a Markdown text and a title it throws an error with a
  message (\<open>Inl\<close>), or returns no document (\<open>Inr None\<close>) or a document.
\<close>

record window =
  jspdf :: bool
  marked :: bool
  DOMPurify :: bool
  JSZip :: bool

type_synonym pdf_maker = "string \<Rightarrow> string \<Rightarrow> string + string option"

text \<open>
  What the browser is given to download: one file under a name, or an archive under a
  name with the \<open>zip.file(name, data)\<close> calls made on it, in the order made.
\<close>

datatype artifact = Single_file string string | Zip_archive string "(string \<times> string) list"

fun pdf_files :: "pdf_maker \<Rightarrow> (string \<times> string) list \<Rightarrow> UploadedFile list
    \<Rightarrow> string + (string \<times> string) list" where
  "pdf_files createPdf archive [] = Inr archive"
| "pdf_files createPdf archive (file # rest) =
     (let title = strip_doc_ext (uf_name file) in
      case createPdf (uf_content file) title of
        Inl message \<Rightarrow> Inl message
      | Inr None \<Rightarrow> pdf_files createPdf archive rest
      | Inr (Some doc) \<Rightarrow> pdf_files createPdf (archive @ [(title @ ''.pdf'', doc)]) rest)"

fun json_files :: "(string \<times> string) list \<Rightarrow> UploadedFile list \<Rightarrow> (string \<times> string) list" where
  "json_files archive [] = archive"
| "json_files archive (file # rest) =
     (let jsonData = JSON_stringify
            (JObject [(''name'', JString (uf_name file)), (''content'', JString (uf_content file))]) 2;
          title = strip_doc_ext (uf_name file)
      in json_files (archive @ [(title @ ''.json'', jsonData)]) rest)"

definition handleDownload :: "window \<Rightarrow> pdf_maker \<Rightarrow> app_state \<Rightarrow> app_state \<times> artifact option" where
  "handleDownload w createPdf s =
     (if length (files s) = 0 then (s\<lparr>error := Some ''Please upload some files first.''\<rparr>, None)
      else if \<not> jspdf w \<or> \<not> marked w \<or> \<not> DOMPurify w \<or> \<not> JSZip w then
        (s\<lparr>error := Some ''Core libraries failed to load. Please refresh the page and try again.''\<rparr>,
         None)
      else
        let finish = (\<lambda>a. (s\<lparr>error := None, isLoading := False, statusMessage := []\<rparr>, Some a));
            failed = (\<lambda>prefix message.
              (s\<lparr>error := Some (prefix @ message), isLoading := False, statusMessage := []\<rparr>, None))
        in
        case outputFormat s of
          PDF \<Rightarrow>
            if isJoining s then
              (case createPdf (combinedMarkdown s) ''RAG-Optimized Document'' of
                 Inl message \<Rightarrow> failed ''Failed to generate PDF output: '' message
               | Inr None \<Rightarrow>
                   failed ''Failed to generate PDF output: '' ''PDF document generation failed.''
               | Inr (Some doc) \<Rightarrow> finish (Single_file ''rag-combined.pdf'' doc))
            else
              (case pdf_files createPdf [] (files s) of
                 Inl message \<Rightarrow> failed ''Failed to generate PDF output: '' message
               | Inr archive \<Rightarrow> finish (Zip_archive ''rag-pdfs.zip'' archive))
        | JSON \<Rightarrow>
            if isJoining s then
              finish (Single_file ''rag-combined.json''
                      (JSON_stringify
                         (JArray (map (\<lambda>file. JObject [(''name'', JString (uf_name file)),
                                                          (''content'', JString (uf_content file))])
                                    (files s))) 2))
            else finish (Zip_archive ''rag-json.zip'' (json_files [] (files s))))"


section \<open>The table, in the words of the specification\<close>

text \<open>
  The words of the specification: a table row is its cells joined by \<open>' | '\<close> between
  \<open>'| '\<close> and \<open>' |'\<close>; a row is fitted to a width by cutting what is beyond it and filling
  what is missing with empty cells.
\<close>

definition md_table_row :: "string list \<Rightarrow> string" where
  "md_table_row cells = ''| '' @ join '' | '' cells @ '' |''"

definition fit_cells :: "nat \<Rightarrow> string list \<Rightarrow> string list" where
  "fit_cells n cells = take n cells @ replicate (n - length cells) []"

lemma split_lines_nonempty: "split_lines s \<noteq> []"
  by (induction s rule: split_lines.induct) (auto split: list.splits)

lemma csvToMarkdownTable_unfold:
  assumes "trim csv \<noteq> []"
  shows "csvToMarkdownTable csv =
           md_table_row (parseCsvRow (hd (split_lines (trim csv)))) @ [LF]
           @ md_table_row (replicate (length (parseCsvRow (hd (split_lines (trim csv))))) ''---'') @ [LF]
           @ join [LF]
               (map (\<lambda>l. ''| '' @ csv_row (parseCsvRow (hd (split_lines (trim csv)))) l @ '' |'')
                  (filter (\<lambda>l. trim l \<noteq> []) (tl (split_lines (trim csv)))))"
proof -
  obtain l ls where ls: "split_lines (trim csv) = l # ls"
    using split_lines_nonempty by (cases "split_lines (trim csv)") auto
  have rep: "map (\<lambda>_. ''---'') (parseCsvRow l) = replicate (length (parseCsvRow l)) ''---''"
    by (simp add: map_replicate_const)
  show ?thesis
    using assms by (simp add: csvToMarkdownTable_def Let_def ls md_table_row_def rep o_def)
qed

lemma adjustedCells_fit: "adjustedCells n cells = fit_cells n cells"
  by (rule nth_equalityI) (auto simp: adjustedCells_def fit_cells_def nth_append)

lemma escape_pipes_append: "escape_pipes (a @ b) = escape_pipes a @ escape_pipes b"
  by (simp add: escape_pipes_def)


text \<open>
  Claim C1. A CSV text that is empty after trimming converts to the empty string. Any other
  CSV text converts to a Markdown table: the header row holds the fields of the first line
  joined by \<open>' | '\<close> inside \<open>'| '\<close> and \<open>' |'\<close>, the separator row holds one \<open>---\<close> per
  header field, and one table row follows for each later line that is not blank after
  trimming, in the order of the lines as split on \<open>\r?\n\<close>.
\<close>

theorem csvToMarkdownTable_table:
  "(trim csv = [] \<longrightarrow> csvToMarkdownTable csv = []) \<and>
   (trim csv \<noteq> [] \<longrightarrow>
      (let lines = split_lines (trim csv);
           header = parseCsvRow (hd lines);
           body = filter (\<lambda>l. trim l \<noteq> []) (tl lines)
       in csvToMarkdownTable csv =
            md_table_row header @ [LF]
            @ md_table_row (replicate (length header) ''---'') @ [LF]
            @ join [LF] (map (\<lambda>l. ''| '' @ csv_row header l @ '' |'') body)))"
proof (cases "trim csv = []")
  case True
  then show ?thesis by (simp add: csvToMarkdownTable_def)
next
  case False
  then show ?thesis
    using csvToMarkdownTable_unfold [of csv] by (simp add: Let_def)
qed

theorem csvToMarkdownTable_table_witness:
  "trim '' '' = [] \<and> csvToMarkdownTable '' '' = [] \<and>
   trim (''a,b'' @ [CR, LF] @ ''1,2'' @ [LF, LF] @ ''3'') \<noteq> [] \<and>
   csvToMarkdownTable (''a,b'' @ [CR, LF] @ ''1,2'' @ [LF, LF] @ ''3'') =
     ''| a | b |\<newline>| --- | --- |\<newline>| 1 | 2 |\<newline>| 3 |  |''"
proof -
  have a: "trim '' '' = []"
    by code_simp
  have b: "trim (''a,b'' @ [CR, LF] @ ''1,2'' @ [LF, LF] @ ''3'') \<noteq> []"
    by code_simp
  have c: "(let lines = split_lines (trim (''a,b'' @ [CR, LF] @ ''1,2'' @ [LF, LF] @ ''3''));
           header = parseCsvRow (hd lines);
           body = filter (\<lambda>l. trim l \<noteq> []) (tl lines)
       in md_table_row header @ [LF]
            @ md_table_row (replicate (length header) ''---'') @ [LF]
            @ join [LF] (map (\<lambda>l. ''| '' @ csv_row header l @ '' |'') body)) =
         ''| a | b |\<newline>| --- | --- |\<newline>| 1 | 2 |\<newline>| 3 |  |''"
    by code_simp
  from csvToMarkdownTable_table [of "'' ''"] a
  have d: "csvToMarkdownTable '' '' = []"
    by blast
  from csvToMarkdownTable_table [of "''a,b'' @ [CR, LF] @ ''1,2'' @ [LF, LF] @ ''3''"] b
  have "csvToMarkdownTable (''a,b'' @ [CR, LF] @ ''1,2'' @ [LF, LF] @ ''3'') =
     ''| a | b |\<newline>| --- | --- |\<newline>| 1 | 2 |\<newline>| 3 |  |''"
    unfolding Let_def using c [unfolded Let_def] by (metis)
  with a b d show ?thesis
    by blast
qed


lemma csv_row_fit:
  "''| '' @ csv_row header l @ '' |'' =
     md_table_row (map escape_pipes (fit_cells (length header) (parseCsvRow l)))"
  by (simp add: csv_row_def md_table_row_def adjustedCells_fit)

lemma length_fit_cells: "length (fit_cells n cells) = n"
  by (simp add: fit_cells_def)

lemma escape_pipes_Cons:
  "escape_pipes (c # cs) =
     (if c = pipe then backslash # pipe # escape_pipes cs else c # escape_pipes cs)"
  by (simp add: escape_pipes_def)

text \<open>
  Claim C9. For a CSV text that is not empty after trimming, every data row of the table
  has as many cells as the header has fields: a line that tokenizes to fewer cells is
  filled on the right with empty cells, a line that tokenizes to more is cut to the
  header's length, and every pipe inside a data cell is written as backslash and pipe,
  while the header's cells are written as they were tokenized.
\<close>

theorem csv_rows_fit_header:
  assumes "trim csv \<noteq> []"
  shows "(let lines = split_lines (trim csv);
              header = parseCsvRow (hd lines);
              n = length header;
              body = filter (\<lambda>l. trim l \<noteq> []) (tl lines);
              cells = (\<lambda>l. map escape_pipes (fit_cells n (parseCsvRow l)))
          in csvToMarkdownTable csv =
               md_table_row header @ [LF]
               @ md_table_row (replicate n ''---'') @ [LF]
               @ join [LF] (map (\<lambda>l. md_table_row (cells l)) body)
             \<and> (\<forall>l. length (cells l) = n)
             \<and> (\<forall>l. length (parseCsvRow l) \<le> n \<longrightarrow>
                    fit_cells n (parseCsvRow l) =
                      parseCsvRow l @ replicate (n - length (parseCsvRow l)) [])
             \<and> (\<forall>l. n \<le> length (parseCsvRow l) \<longrightarrow>
                    fit_cells n (parseCsvRow l) = take n (parseCsvRow l)))
         \<and> escape_pipes [] = []
         \<and> (\<forall>c cs. escape_pipes (c # cs) =
               (if c = pipe then backslash # pipe # escape_pipes cs
                else c # escape_pipes cs))"
proof -
  have "csvToMarkdownTable csv =
           md_table_row (parseCsvRow (hd (split_lines (trim csv)))) @ [LF]
           @ md_table_row (replicate (length (parseCsvRow (hd (split_lines (trim csv))))) ''---'') @ [LF]
           @ join [LF]
               (map (\<lambda>l. md_table_row (map escape_pipes
                      (fit_cells (length (parseCsvRow (hd (split_lines (trim csv))))) (parseCsvRow l))))
                  (filter (\<lambda>l. trim l \<noteq> []) (tl (split_lines (trim csv)))))"
    using csvToMarkdownTable_unfold [OF assms] by (simp only: csv_row_fit)
  moreover have "escape_pipes [] = []"
    by (simp add: escape_pipes_def)
  moreover have "\<And>n cells. length cells \<le> n \<Longrightarrow>
      fit_cells n cells = cells @ replicate (n - length cells) []"
    by (simp add: fit_cells_def)
  moreover have "\<And>n cells. n \<le> length cells \<Longrightarrow> fit_cells n cells = take n cells"
    by (simp add: fit_cells_def)
  ultimately show ?thesis
    by (simp add: Let_def length_fit_cells escape_pipes_Cons)
qed

theorem csv_rows_fit_header_witness:
  "trim (''a,b'' @ [LF] @ ''1'' @ [LF] @ ''x|y,2,3'') \<noteq> [] \<and>
   csvToMarkdownTable (''a,b'' @ [LF] @ ''1'' @ [LF] @ ''x|y,2,3'') =
     ''| a | b |\<newline>| --- | --- |\<newline>| 1 |  |\<newline>| x'' @ [backslash] @ ''|y | 2 |''"
proof -
  have a: "trim (''a,b'' @ [LF] @ ''1'' @ [LF] @ ''x|y,2,3'') \<noteq> []"
    by code_simp
  have c: "(let lines = split_lines (trim (''a,b'' @ [LF] @ ''1'' @ [LF] @ ''x|y,2,3''));
              header = parseCsvRow (hd lines);
              n = length header;
              body = filter (\<lambda>l. trim l \<noteq> []) (tl lines);
              cells = (\<lambda>l. map escape_pipes (fit_cells n (parseCsvRow l)))
          in md_table_row header @ [LF]
               @ md_table_row (replicate n ''---'') @ [LF]
               @ join [LF] (map (\<lambda>l. md_table_row (cells l)) body)) =
      ''| a | b |\<newline>| --- | --- |\<newline>| 1 |  |\<newline>| x'' @ [backslash] @ ''|y | 2 |''"
    by code_simp
  from csv_rows_fit_header [OF a] c
  have "csvToMarkdownTable (''a,b'' @ [LF] @ ''1'' @ [LF] @ ''x|y,2,3'') =
     ''| a | b |\<newline>| --- | --- |\<newline>| 1 |  |\<newline>| x'' @ [backslash] @ ''|y | 2 |''"
    unfolding Let_def by metis
  with a show ?thesis
    by blast
qed

lemma dropWhile_same: "xs = [] \<or> \<not> P (hd xs) \<Longrightarrow> dropWhile P xs = xs"
  by (cases xs) auto

lemma trim_idem: "trim (trim s) = trim s"
proof -
  define d where "d = dropWhile is_space s"
  define e where "e = dropWhile is_space (rev d)"
  have t: "trim s = rev e"
    by (simp add: trim_def d_def e_def)
  have front: "dropWhile is_space (rev e) = rev e"
  proof (cases "e = []")
    case True
    then show ?thesis by simp
  next
    case False
    then have ne: "rev d \<noteq> []"
      by (auto simp: e_def)
    then have "d \<noteq> []"
      by simp
    then have hdd: "\<not> is_space (hd d)"
      unfolding d_def by (rule hd_dropWhile)
    from False have "\<exists>x \<in> set (rev d). \<not> is_space x"
      by (auto simp: e_def)
    then have "last e = last (rev d)"
      unfolding e_def by (auto intro: dropWhile_last)
    also have "\<dots> = hd d"
      using \<open>d \<noteq> []\<close> by (simp add: last_rev)
    finally have "\<not> is_space (hd (rev e))"
      using hdd False by (simp add: hd_rev)
    then show ?thesis
      by (intro dropWhile_same) simp
  qed
  have rear: "dropWhile is_space e = e"
    by (simp add: e_def)
  show ?thesis
    unfolding t by (simp add: trim_def front rear)
qed

section \<open>Rows written the RFC 4180 way\<close>

text \<open>
  The words of the specification, after RFC 4180: a row is a non-empty list of fields
  separated by commas. A field is either enclosed in double quotes, with every double
  quote of its text written twice, or written bare; a bare field holds no comma and does
  not open with a double quote.
\<close>

datatype csv_field = Quoted string | Bare string

fun field_text :: "csv_field \<Rightarrow> string" where
  "field_text (Quoted c) = c"
| "field_text (Bare u) = u"

definition double_dquotes :: "string \<Rightarrow> string" where
  "double_dquotes c = concat (map (\<lambda>x. if x = dquote then [dquote, dquote] else [x]) c)"

fun field_source :: "csv_field \<Rightarrow> string" where
  "field_source (Quoted c) = dquote # double_dquotes c @ [dquote]"
| "field_source (Bare u) = u"

fun well_formed :: "csv_field \<Rightarrow> bool" where
  "well_formed (Quoted c) = True"
| "well_formed (Bare u) = (comma \<notin> set u \<and> (u = [] \<or> hd u \<noteq> dquote))"

definition row_source :: "csv_field list \<Rightarrow> string" where
  "row_source fs = join [comma] (map field_source fs)"

lemma replace_dquotes_other:
  "c \<noteq> dquote \<Longrightarrow> replace_dquotes (c # cs) = c # replace_dquotes cs"
  by (cases cs) auto

lemma replace_double_dquotes: "replace_dquotes (double_dquotes c) = c"
  by (induction c) (auto simp: double_dquotes_def replace_dquotes_other)

lemma star_splits_doubled:
  assumes "tail = [] \<or> hd tail \<noteq> dquote"
  shows "\<exists>alts. star_splits (double_dquotes c @ dquote # tail) =
           (double_dquotes c, dquote # tail) # alts"
proof (induction c)
  case Nil
  from assms show ?case
    by (cases tail) (auto simp: double_dquotes_def)
next
  case (Cons x c)
  then obtain alts where
    "star_splits (double_dquotes c @ dquote # tail) = (double_dquotes c, dquote # tail) # alts"
    by blast
  then show ?case
    by (auto simp: double_dquotes_def)
qed

lemma regex_exec_quoted_last:
  "regex_exec (field_source (Quoted c)) = (Group1 (double_dquotes c), [], [])"
proof -
  obtain alts where
    "star_splits (double_dquotes c @ dquote # []) = (double_dquotes c, dquote # []) # alts"
    using star_splits_doubled [of "[]" c] by auto
  then show ?thesis
    by (simp add: regex_exec_def)
qed

lemma regex_exec_quoted_more:
  "regex_exec (field_source (Quoted c) @ comma # later) =
     (Group1 (double_dquotes c), [comma], later)"
proof -
  have "comma \<noteq> dquote"
    by (simp add: comma_def dquote_def)
  then obtain alts where
    "star_splits (double_dquotes c @ dquote # comma # later) =
       (double_dquotes c, dquote # comma # later) # alts"
    using star_splits_doubled [of "comma # later" c] by auto
  then show ?thesis
    by (simp add: regex_exec_def)
qed

lemma bare_match_last:
  assumes "comma \<notin> set u"
  shows "bare_match u = (Group2 u, [], [])"
proof -
  from assms have "\<forall>x \<in> set u. x \<noteq> comma"
    by auto
  then have d: "dropWhile (\<lambda>c. c \<noteq> comma) u = []"
    and t: "takeWhile (\<lambda>c. c \<noteq> comma) u = u"
    by simp_all
  show ?thesis
    unfolding bare_match_def d t by simp
qed

lemma bare_match_more:
  assumes "comma \<notin> set u"
  shows "bare_match (u @ comma # later) = (Group2 u, [comma], later)"
proof -
  from assms have "\<forall>x \<in> set u. x \<noteq> comma"
    by auto
  then have d: "dropWhile (\<lambda>c. c \<noteq> comma) (u @ comma # later) = comma # later"
    and t: "takeWhile (\<lambda>c. c \<noteq> comma) (u @ comma # later) = u"
    by simp_all
  show ?thesis
    unfolding bare_match_def d t by simp
qed

lemma regex_exec_bare_last:
  assumes "well_formed (Bare u)"
  shows "regex_exec (field_source (Bare u)) = (Group2 u, [], [])"
  using assms by (cases u) (auto simp: regex_exec_def bare_match_last)

lemma regex_exec_bare_more:
  assumes "well_formed (Bare u)"
  shows "regex_exec (field_source (Bare u) @ comma # later) = (Group2 u, [comma], later)"
proof (cases u)
  case Nil
  then show ?thesis
    by (simp add: regex_exec_def bare_match_def comma_def dquote_def)
next
  case (Cons x xs)
  with assms have "regex_exec ((x # xs) @ comma # later) = bare_match ((x # xs) @ comma # later)"
    by (simp add: regex_exec_def)
  with assms Cons show ?thesis
    using bare_match_more [of u later] by simp
qed

lemma parseCsvRow_last:
  assumes "well_formed f"
  shows "parseCsvRow (field_source f) = [trim (field_text f)]"
proof (cases f)
  case (Quoted c)
  then show ?thesis
    by (simp add: parseCsvRow.simps [of "field_source (Quoted c)"] regex_exec_quoted_last
        match_value_def replace_double_dquotes del: field_source.simps)
next
  case (Bare u)
  with assms show ?thesis
    by (simp add: parseCsvRow.simps [of "field_source (Bare u)"] regex_exec_bare_last
        match_value_def del: field_source.simps)
qed

lemma parseCsvRow_more:
  assumes "well_formed f"
  shows "parseCsvRow (field_source f @ comma # later) = trim (field_text f) # parseCsvRow later"
proof (cases f)
  case (Quoted c)
  then show ?thesis
    by (simp add: parseCsvRow.simps [of "field_source (Quoted c) @ comma # later"]
        regex_exec_quoted_more match_value_def replace_double_dquotes del: field_source.simps)
next
  case (Bare u)
  with assms show ?thesis
    by (simp add: parseCsvRow.simps [of "field_source (Bare u) @ comma # later"]
        regex_exec_bare_more match_value_def del: field_source.simps)
qed

lemma parseCsvRow_row_source:
  "fs \<noteq> [] \<Longrightarrow> list_all well_formed fs \<Longrightarrow>
   parseCsvRow (row_source fs) = map (\<lambda>f. trim (field_text f)) fs"
proof (induction fs)
  case Nil
  then show ?case by simp
next
  case (Cons f fs)
  show ?case
  proof (cases fs)
    case Nil
    with Cons.prems show ?thesis
      by (simp add: row_source_def parseCsvRow_last)
  next
    case (Cons g gs)
    with Cons.prems Cons.IH show ?thesis
      by (simp add: row_source_def parseCsvRow_more)
  qed
qed

lemma parseCsvRow_trimmed: "v \<in> set (parseCsvRow row) \<Longrightarrow> trim v = v"
proof (induction row arbitrary: v rule: parseCsvRow.induct)
  case (1 row)
  obtain m g3 rest where e: "regex_exec row = (m, g3, rest)"
    by (cases "regex_exec row") auto
  show ?case
  proof (cases "g3 = []")
    case True
    with e "1.prems" show ?thesis
      by (simp add: parseCsvRow.simps [of row] trim_idem)
  next
    case False
    with e "1.prems" "1.IH" [OF e [symmetric] refl False] show ?thesis
      by (auto simp: parseCsvRow.simps [of row] trim_idem)
  qed
qed


text \<open>
  Claim C2. The row tokenizer follows RFC 4180 quoting. On a row of comma-separated
  fields, each enclosed in double quotes or bare, it returns one value per field, in
  order: a quoted field gives its text as one value whatever commas it holds and with
  every doubled double quote turned back into one, a bare field reaches to the next comma
  or the end of the row, and every value is trimmed of white space. On any row whatever,
  every value returned is trimmed.
\<close>

theorem parseCsvRow_rfc4180:
  "(fs \<noteq> [] \<longrightarrow> list_all well_formed fs \<longrightarrow>
      parseCsvRow (row_source fs) = map (\<lambda>f. trim (field_text f)) fs) \<and>
   (\<forall>v \<in> set (parseCsvRow row). trim v = v)"
  using parseCsvRow_row_source [of fs] parseCsvRow_trimmed [of _ row] by blast

theorem parseCsvRow_rfc4180_witness:
  "row_source [Quoted ''a,b'', Bare '' c '', Quoted (''say '' @ [dquote] @ ''hi'' @ [dquote]), Bare []] =
     [dquote] @ ''a,b'' @ [dquote] @ '', c ,'' @ [dquote] @ ''say '' @ [dquote, dquote] @ ''hi''
       @ [dquote, dquote, dquote] @ '','' \<and>
   parseCsvRow ([dquote] @ ''a,b'' @ [dquote] @ '', c ,'' @ [dquote] @ ''say '' @ [dquote, dquote]
       @ ''hi'' @ [dquote, dquote, dquote] @ '','') =
     [''a,b'', ''c'', ''say '' @ [dquote] @ ''hi'' @ [dquote], []] \<and>
   trim ''c'' = ''c''"
proof -
  let ?fs = "[Quoted ''a,b'', Bare '' c '', Quoted (''say '' @ [dquote] @ ''hi'' @ [dquote]), Bare []]"
  let ?row = "[dquote] @ ''a,b'' @ [dquote] @ '', c ,'' @ [dquote] @ ''say '' @ [dquote, dquote]
       @ ''hi'' @ [dquote, dquote, dquote] @ '',''"
  have src: "row_source ?fs = ?row"
    by code_simp
  have wf: "?fs \<noteq> [] \<and> list_all well_formed ?fs"
    by code_simp
  have vals: "map (\<lambda>f. trim (field_text f)) ?fs =
      [''a,b'', ''c'', ''say '' @ [dquote] @ ''hi'' @ [dquote], []]"
    by code_simp
  from parseCsvRow_rfc4180 [of ?fs ?row] wf
  have parsed: "parseCsvRow (row_source ?fs) = map (\<lambda>f. trim (field_text f)) ?fs"
    and trimmed: "\<forall>v \<in> set (parseCsvRow ?row). trim v = v"
    by blast+
  from parsed src vals
  have p: "parseCsvRow ?row = [''a,b'', ''c'', ''say '' @ [dquote] @ ''hi'' @ [dquote], []]"
    by (simp only:)
  then have "''c'' \<in> set (parseCsvRow ?row)"
    by (simp only: list.set insert_iff simp_thms)
  with trimmed have "trim ''c'' = ''c''"
    by blast
  with src p show ?thesis
    by (simp only: simp_thms)
qed

section \<open>Facts about ingestion\<close>

lemma decimal_5: "decimal 5 = ''5''"
  by (simp add: decimal.simps)

lemma decimal_25: "decimal 25 = ''25''"
  by (simp add: decimal.simps [of 25] decimal.simps [of 2])

lemma decimal_100: "decimal 100 = ''100''"
  by (simp add: decimal.simps [of 100] decimal.simps [of 10] decimal.simps [of "Suc 0"])

lemma Promise_all_rejects:
  "Inl e \<in> set ps \<Longrightarrow> \<exists>e'. Promise_all ps = Inl e'"
  by (induction ps rule: Promise_all.induct) (auto split: sum.splits)

lemma Promise_all_resolves:
  "Promise_all ps = Inr vs \<Longrightarrow> ps = map Inr vs"
  by (induction ps arbitrary: vs rule: Promise_all.induct) (auto split: sum.splits)

lemma Promise_all_Inr: "Promise_all (map Inr vs) = Inr vs"
  by (induction vs) auto

lemma batch_rejects:
  assumes "f \<in> set droppedFiles" and "handleFile jszip f = Inl e"
  shows "\<exists>e'. Promise_all (map (handleFile jszip) droppedFiles) = Inl e'"
proof (rule Promise_all_rejects)
  from assms show "Inl e \<in> set (map (handleFile jszip) droppedFiles)"
    by (metis image_eqI list.set_map)
qed

lemma processFiles_rejected:
  assumes "f \<in> set droppedFiles" and "handleFile jszip f = Inl e"
  shows "files (processFiles jszip filesLength droppedFiles s) = files s"
    and "error (processFiles jszip filesLength droppedFiles s) \<noteq> None"
proof -
  from batch_rejects [OF assms] obtain e' where
    r: "Promise_all (map (handleFile jszip) droppedFiles) = Inl e'" ..
  show "files (processFiles jszip filesLength droppedFiles s) = files s"
    by (simp add: processFiles_def r)
  show "error (processFiles jszip filesLength droppedFiles s) \<noteq> None"
    by (simp add: processFiles_def r)
qed


lemma handleFile_zip_too_large:
  assumes "is_zip_name (file_name f)" and "file_size f > 25 * 1024 * 1024"
  shows "handleFile jszip f =
           Inl (''ZIP '' @ [dquote] @ file_name f @ [dquote] @ '' is larger than 25MB.'')"
  using assms
  by (simp add: handleFile_def MAX_ZIP_FILE_SIZE_BYTES_def MAX_ZIP_FILE_SIZE_MB_def decimal_25)

lemma handleFile_doc_too_large:
  assumes "\<not> is_zip_name (file_name f)" and "is_doc_name (file_name f)"
    and "file_size f > 5 * 1024 * 1024"
  shows "handleFile jszip f = Inl ([dquote] @ file_name f @ [dquote] @ '' is larger than 5MB.'')"
  using assms
  by (simp add: handleFile_def MAX_FILE_SIZE_BYTES_def MAX_FILE_SIZE_MB_def decimal_5)


text \<open>
  Claim C5. Size ceilings are enforced on every ingested file: a file with a .zip name
  larger than 25 MB (25 * 1024 * 1024 bytes) is rejected with an error that names the file
  and the 25MB limit, a .md, .markdown or .csv file larger than 5 MB (5 * 1024 * 1024
  bytes) is rejected with an error that names the file and the 5MB limit, and a batch
  that holds a rejected file adds no record to the file list.
\<close>

theorem size_ceilings:
  "(is_zip_name (file_name f) \<and> file_size f > 25 * 1024 * 1024 \<longrightarrow>
      handleFile jszip f =
        Inl (''ZIP '' @ [dquote] @ file_name f @ [dquote] @ '' is larger than 25MB.'')) \<and>
   (\<not> is_zip_name (file_name f) \<and> is_doc_name (file_name f) \<and> file_size f > 5 * 1024 * 1024 \<longrightarrow>
      handleFile jszip f =
        Inl ([dquote] @ file_name f @ [dquote] @ '' is larger than 5MB.'')) \<and>
   (f \<in> set droppedFiles \<and>
    ((is_zip_name (file_name f) \<and> file_size f > 25 * 1024 * 1024) \<or>
     (\<not> is_zip_name (file_name f) \<and> is_doc_name (file_name f) \<and> file_size f > 5 * 1024 * 1024)) \<longrightarrow>
      files (processFiles jszip filesLength droppedFiles s) = files s)"
proof (intro conjI impI)
  assume "is_zip_name (file_name f) \<and> file_size f > 25 * 1024 * 1024"
  then show "handleFile jszip f =
        Inl (''ZIP '' @ [dquote] @ file_name f @ [dquote] @ '' is larger than 25MB.'')"
    using handleFile_zip_too_large by blast
next
  assume "\<not> is_zip_name (file_name f) \<and> is_doc_name (file_name f)
            \<and> file_size f > 5 * 1024 * 1024"
  then show "handleFile jszip f =
        Inl ([dquote] @ file_name f @ [dquote] @ '' is larger than 5MB.'')"
    using handleFile_doc_too_large by blast
next
  assume a: "f \<in> set droppedFiles \<and>
    ((is_zip_name (file_name f) \<and> file_size f > 25 * 1024 * 1024) \<or>
     (\<not> is_zip_name (file_name f) \<and> is_doc_name (file_name f) \<and> file_size f > 5 * 1024 * 1024))"
  then have "\<exists>e. handleFile jszip f = Inl e"
    using handleFile_zip_too_large [of f jszip] handleFile_doc_too_large [of f jszip] by blast
  with a show "files (processFiles jszip filesLength droppedFiles s) = files s"
    using processFiles_rejected(1) by blast
qed


theorem size_ceilings_witness:
  "handleFile True
     \<lparr>file_name = ''big.ZIP'', file_size = 26214401, file_text = None, file_zip = Some [],
      file_now = 1, file_random = ''0.5''\<rparr> =
     Inl (''ZIP '' @ [dquote] @ ''big.ZIP'' @ [dquote] @ '' is larger than 25MB.'') \<and>
   handleFile True
     \<lparr>file_name = ''big.md'', file_size = 5242881, file_text = Some ''x'', file_zip = None,
      file_now = 1, file_random = ''0.5''\<rparr> =
     Inl ([dquote] @ ''big.md'' @ [dquote] @ '' is larger than 5MB.'') \<and>
   files (processFiles True 0
     [\<lparr>file_name = ''ok.md'', file_size = 1, file_text = Some ''x'', file_zip = None,
       file_now = 1, file_random = ''0.5''\<rparr>,
      \<lparr>file_name = ''big.md'', file_size = 5242881, file_text = Some ''x'', file_zip = None,
       file_now = 1, file_random = ''0.5''\<rparr>] initial_state) = []"
proof -
  let ?z = "\<lparr>file_name = ''big.ZIP'', file_size = 26214401, file_text = None,
             file_zip = Some [], file_now = 1, file_random = ''0.5''\<rparr>"
  let ?m = "\<lparr>file_name = ''big.md'', file_size = 5242881, file_text = Some ''x'',
             file_zip = None, file_now = 1, file_random = ''0.5''\<rparr>"
  let ?k = "\<lparr>file_name = ''ok.md'', file_size = 1, file_text = Some ''x'',
             file_zip = None, file_now = 1, file_random = ''0.5''\<rparr>"
  have zn: "is_zip_name ''big.ZIP''"
    by code_simp
  have mn: "\<not> is_zip_name ''big.md''"
    by code_simp
  have md: "is_doc_name ''big.md''"
    by code_simp
  from zn have z: "is_zip_name (file_name ?z) \<and> file_size ?z > 25 * 1024 * 1024"
    by simp
  from mn md have m: "\<not> is_zip_name (file_name ?m) \<and> is_doc_name (file_name ?m)
             \<and> file_size ?m > 5 * 1024 * 1024"
    by simp
  have i: "?m \<in> set [?k, ?m]"
    by simp
  have n: "files initial_state = []"
    by (simp add: initial_state_def)
  have a: "handleFile True ?z =
      Inl (''ZIP '' @ [dquote] @ file_name ?z @ [dquote] @ '' is larger than 25MB.'')"
    by (rule size_ceilings [of ?z True "[]" 0 initial_state, THEN conjunct1, THEN mp, OF z])
  have mi: "?m \<in> set [?k, ?m] \<and>
    ((is_zip_name (file_name ?m) \<and> file_size ?m > 25 * 1024 * 1024) \<or>
     (\<not> is_zip_name (file_name ?m) \<and> is_doc_name (file_name ?m)
        \<and> file_size ?m > 5 * 1024 * 1024))"
    by (rule conjI [OF i disjI2 [OF m]])
  have b: "handleFile True ?m =
      Inl ([dquote] @ file_name ?m @ [dquote] @ '' is larger than 5MB.'')"
    by (rule size_ceilings [of ?m True "[?k, ?m]" 0 initial_state,
          THEN conjunct2, THEN conjunct1, THEN mp, OF m])
  have c: "files (processFiles True 0 [?k, ?m] initial_state) = files initial_state"
    by (rule size_ceilings [of ?m True "[?k, ?m]" 0 initial_state,
          THEN conjunct2, THEN conjunct2, THEN mp, OF mi])
  have fz: "file_name ?z = ''big.ZIP''" and fm: "file_name ?m = ''big.md''"
    by simp_all
  from a b c show ?thesis
    unfolding fz fm n by (intro conjI)
qed


lemma handleFile_unreadable_member:
  assumes "is_zip_name (file_name f)" and "file_zip f = Some entries"
    and "z \<in> set entries" and "wanted_entry z" and "entry_string z = None"
  shows "isl (handleFile jszip f)"
proof -
  from assms(3,4) have "z \<in> set (filter wanted_entry entries)"
    by simp
  moreover from assms(5) have "read_entry z = Inl ()"
    by (simp add: read_entry_def)
  ultimately have "Inl () \<in> set (map read_entry (filter wanted_entry entries))"
    by (metis image_eqI list.set_map)
  from Promise_all_rejects [OF this] obtain u where
    u: "Promise_all (map read_entry (filter wanted_entry entries)) = Inl u" ..
  from assms(1,2) show ?thesis
    by (simp add: handleFile_def u)
qed

lemma handleFile_corrupt_zip:
  assumes "is_zip_name (file_name f)" and "file_zip f = None"
  shows "isl (handleFile jszip f)"
  using assms by (simp add: handleFile_def)

lemma handleFile_read_error:
  assumes "\<not> is_zip_name (file_name f)" and "is_doc_name (file_name f)" and "file_text f = None"
  shows "isl (handleFile jszip f)"
  using assms by (simp add: handleFile_def)


text \<open>
  Claim C10. A call of processFiles adds all of its batch or nothing of it: when any file
  of the batch fails (a file or an archive over its size limit, an archive that cannot be
  loaded or whose member cannot be read, a file that cannot be read), the file list is
  left as it was before the call and an error message is set.
\<close>

theorem processFiles_all_or_nothing:
  "(f \<in> set droppedFiles \<and> isl (handleFile jszip f) \<longrightarrow>
      files (processFiles jszip filesLength droppedFiles s) = files s \<and>
      error (processFiles jszip filesLength droppedFiles s) \<noteq> None) \<and>
   (is_zip_name (file_name f) \<and> file_size f > 25 * 1024 * 1024 \<longrightarrow>
      isl (handleFile jszip f)) \<and>
   (is_zip_name (file_name f) \<and> file_zip f = None \<longrightarrow> isl (handleFile jszip f)) \<and>
   (is_zip_name (file_name f) \<and> file_zip f = Some entries \<and>
    z \<in> set entries \<and> wanted_entry z \<and> entry_string z = None \<longrightarrow>
      isl (handleFile jszip f)) \<and>
   (\<not> is_zip_name (file_name f) \<and> is_doc_name (file_name f) \<and>
    file_size f > 5 * 1024 * 1024 \<longrightarrow> isl (handleFile jszip f)) \<and>
   (\<not> is_zip_name (file_name f) \<and> is_doc_name (file_name f) \<and> file_text f = None \<longrightarrow>
      isl (handleFile jszip f))"
proof (intro conjI impI)
  assume a: "f \<in> set droppedFiles \<and> isl (handleFile jszip f)"
  then obtain e where e: "handleFile jszip f = Inl e"
    by (cases "handleFile jszip f") auto
  from a have m: "f \<in> set droppedFiles" ..
  show "files (processFiles jszip filesLength droppedFiles s) = files s"
    by (rule processFiles_rejected(1) [OF m e])
  show "error (processFiles jszip filesLength droppedFiles s) \<noteq> None"
    by (rule processFiles_rejected(2) [OF m e])
next
  assume "is_zip_name (file_name f) \<and> file_size f > 25 * 1024 * 1024"
  then show "isl (handleFile jszip f)"
    by (simp add: handleFile_zip_too_large del: append.simps)
next
  assume "is_zip_name (file_name f) \<and> file_zip f = None"
  then show "isl (handleFile jszip f)"
    by (simp add: handleFile_corrupt_zip)
next
  assume "is_zip_name (file_name f) \<and> file_zip f = Some entries \<and>
    z \<in> set entries \<and> wanted_entry z \<and> entry_string z = None"
  then show "isl (handleFile jszip f)"
    using handleFile_unreadable_member [of f entries z jszip] by simp
next
  assume "\<not> is_zip_name (file_name f) \<and> is_doc_name (file_name f) \<and>
    file_size f > 5 * 1024 * 1024"
  then show "isl (handleFile jszip f)"
    by (simp add: handleFile_doc_too_large del: append.simps)
next
  assume "\<not> is_zip_name (file_name f) \<and> is_doc_name (file_name f) \<and> file_text f = None"
  then show "isl (handleFile jszip f)"
    by (simp add: handleFile_read_error)
qed


theorem processFiles_all_or_nothing_witness:
  "files (processFiles True 1
     [\<lparr>file_name = ''ok.md'', file_size = 1, file_text = Some ''x'', file_zip = None,
       file_now = 1, file_random = ''0.5''\<rparr>,
      \<lparr>file_name = ''bad.zip'', file_size = 9, file_text = None, file_zip = None,
       file_now = 2, file_random = ''0.25''\<rparr>]
     (initial_state\<lparr>files := [\<lparr>uf_id = ''a.md-0-0.1'', uf_name = ''a.md'', uf_content = ''A''\<rparr>]\<rparr>)) =
     [\<lparr>uf_id = ''a.md-0-0.1'', uf_name = ''a.md'', uf_content = ''A''\<rparr>] \<and>
   error (processFiles True 1
     [\<lparr>file_name = ''ok.md'', file_size = 1, file_text = Some ''x'', file_zip = None,
       file_now = 1, file_random = ''0.5''\<rparr>,
      \<lparr>file_name = ''bad.zip'', file_size = 9, file_text = None, file_zip = None,
       file_now = 2, file_random = ''0.25''\<rparr>]
     (initial_state\<lparr>files := [\<lparr>uf_id = ''a.md-0-0.1'', uf_name = ''a.md'', uf_content = ''A''\<rparr>]\<rparr>)) \<noteq> None"
proof -
  let ?k = "\<lparr>file_name = ''ok.md'', file_size = 1, file_text = Some ''x'', file_zip = None,
       file_now = 1, file_random = ''0.5''\<rparr>"
  let ?c = "\<lparr>file_name = ''bad.zip'', file_size = 9, file_text = None, file_zip = None,
       file_now = 2, file_random = ''0.25''\<rparr>"
  let ?s = "initial_state\<lparr>files := [\<lparr>uf_id = ''a.md-0-0.1'', uf_name = ''a.md'', uf_content = ''A''\<rparr>]\<rparr>"
  note t = processFiles_all_or_nothing [of ?c "[?k, ?c]" True 1 ?s]
  have zn: "is_zip_name ''bad.zip''"
    by code_simp
  then have z: "is_zip_name (file_name ?c) \<and> file_zip ?c = None"
    by simp
  have bad: "isl (handleFile True ?c)"
    by (rule t [THEN conjunct2, THEN conjunct2, THEN conjunct1, THEN mp, OF z])
  have i: "?c \<in> set [?k, ?c]"
    by simp
  have r: "files (processFiles True 1 [?k, ?c] ?s) = files ?s \<and>
           error (processFiles True 1 [?k, ?c] ?s) \<noteq> None"
    by (rule t [THEN conjunct1, THEN mp, OF conjI [OF i bad]])
  have f: "files ?s = [\<lparr>uf_id = ''a.md-0-0.1'', uf_name = ''a.md'', uf_content = ''A''\<rparr>]"
    by simp
  from r show ?thesis
    unfolding f .
qed


section \<open>Which files are taken\<close>

lemma regex_test_suffix:
  "regex_test at s = (\<exists>stem rest. s = stem @ rest \<and> at rest)"
proof (induction s)
  case Nil
  then show ?case by simp
next
  case (Cons c cs)
  show ?case
  proof
    assume "regex_test at (c # cs)"
    then consider "at (c # cs)" | "regex_test at cs"
      by auto
    then show "\<exists>stem rest. c # cs = stem @ rest \<and> at rest"
    proof cases
      case 1
      then have "c # cs = [] @ (c # cs) \<and> at (c # cs)"
        by simp
      then show ?thesis by blast
    next
      case 2
      with Cons.IH obtain stem rest where "cs = stem @ rest" "at rest"
        by blast
      then have "c # cs = (c # stem) @ rest \<and> at rest"
        by simp
      then show ?thesis by blast
    qed
  next
    assume "\<exists>stem rest. c # cs = stem @ rest \<and> at rest"
    then obtain stem rest where sr: "c # cs = stem @ rest" "at rest"
      by blast
    show "regex_test at (c # cs)"
    proof (cases stem)
      case Nil
      with sr have "at (c # cs)" by simp
      then show ?thesis by simp
    next
      case (Cons d ds)
      with sr have "cs = ds @ rest"
        by simp
      with sr(2) Cons.IH show ?thesis
        by auto
    qed
  qed
qed

lemma Promise_all_map:
  "Promise_all (map g es) = Inr vs \<Longrightarrow> list_all2 (\<lambda>e v. g e = Inr v) es vs"
proof (induction es arbitrary: vs)
  case Nil
  then show ?case by simp
next
  case (Cons a es)
  show ?case
  proof (cases "g a")
    case (Inl e)
    with Cons.prems show ?thesis by simp
  next
    case (Inr v)
    show ?thesis
    proof (cases "Promise_all (map g es)")
      case (Inl e)
      with Inr Cons.prems show ?thesis by simp
    next
      case inner: (Inr ws)
      with Inr Cons.prems have "vs = v # ws"
        by simp
      with Inr Cons.IH [OF inner] show ?thesis
        by simp
    qed
  qed
qed

lemma Promise_all_map_resolves:
  "(\<And>e. e \<in> set es \<Longrightarrow> \<exists>v. g e = Inr v) \<Longrightarrow> \<exists>vs. Promise_all (map g es) = Inr vs"
proof (induction es)
  case Nil
  then show ?case by simp
next
  case (Cons a es)
  from Cons.prems obtain v where "g a = Inr v"
    by auto
  moreover from Cons obtain vs where "Promise_all (map g es) = Inr vs"
    by auto
  ultimately show ?case
    by simp
qed

lemma read_entry_Inr:
  "read_entry z = Inr r \<Longrightarrow>
   \<exists>content. entry_string z = Some content \<and>
     uf_name r = entry_name z \<and>
     uf_content r = (if is_csv_name (entry_name z) then csvToMarkdownTable content else content) \<and>
     uf_id r = entry_name z @ ''-'' @ decimal (entry_now z) @ ''-'' @ entry_random z"
  by (auto simp: read_entry_def processSingleFile_def split: option.splits)

lemma handleFile_zip_members:
  assumes "is_zip_name (file_name f)" and "file_zip f = Some entries"
    and "handleFile jszip f = Inr recs"
  shows "list_all2
           (\<lambda>z r. \<exists>content. entry_string z = Some content \<and>
              uf_name r = entry_name z \<and>
              uf_content r =
                (if is_csv_name (entry_name z) then csvToMarkdownTable content else content) \<and>
              uf_id r = entry_name z @ ''-'' @ decimal (entry_now z) @ ''-'' @ entry_random z)
           (filter (\<lambda>z. \<not> entry_dir z \<and> is_doc_name (entry_name z)) entries) recs"
proof -
  from assms have "Promise_all (map read_entry (filter wanted_entry entries)) = Inr recs"
    by (simp add: handleFile_def split: if_splits sum.splits)
  then have "list_all2 (\<lambda>z r. read_entry z = Inr r) (filter wanted_entry entries) recs"
    by (rule Promise_all_map)
  then have "list_all2
           (\<lambda>z r. \<exists>content. entry_string z = Some content \<and>
              uf_name r = entry_name z \<and>
              uf_content r =
                (if is_csv_name (entry_name z) then csvToMarkdownTable content else content) \<and>
              uf_id r = entry_name z @ ''-'' @ decimal (entry_now z) @ ''-'' @ entry_random z)
           (filter wanted_entry entries) recs"
    by (rule list_all2_mono) (rule read_entry_Inr)
  moreover have "wanted_entry = (\<lambda>z. \<not> entry_dir z \<and> is_doc_name (entry_name z))"
    by (rule ext) (simp add: wanted_entry_def)
  ultimately show ?thesis
    by simp
qed

lemma handleFile_zip_resolves:
  assumes "is_zip_name (file_name f)" and "file_size f \<le> 25 * 1024 * 1024" and "jszip"
    and "file_zip f = Some entries"
    and "\<And>z. z \<in> set entries \<Longrightarrow> \<not> entry_dir z \<Longrightarrow> is_doc_name (entry_name z)
           \<Longrightarrow> entry_string z \<noteq> None"
  shows "\<exists>recs. handleFile jszip f = Inr recs"
proof -
  have "\<exists>v. read_entry z = Inr v" if "z \<in> set (filter wanted_entry entries)" for z
  proof -
    from that have "z \<in> set entries" "\<not> entry_dir z" "is_doc_name (entry_name z)"
      by (simp_all add: wanted_entry_def)
    then have "entry_string z \<noteq> None"
      by (rule assms(5))
    then show ?thesis
      by (auto simp: read_entry_def)
  qed
  then obtain recs where
    r: "Promise_all (map read_entry (filter wanted_entry entries)) = Inr recs"
    using Promise_all_map_resolves [of "filter wanted_entry entries" read_entry] by auto
  from assms(1-4) show ?thesis
    by (simp add: handleFile_def r MAX_ZIP_FILE_SIZE_BYTES_def MAX_ZIP_FILE_SIZE_MB_def)
qed

lemma handleFile_unsupported:
  assumes "\<not> is_zip_name (file_name f)" and "\<not> is_doc_name (file_name f)"
  shows "handleFile jszip f = Inr []"
  using assms by (simp add: handleFile_def)

lemma processFiles_single:
  assumes "filesLength < 100" and "handleFile jszip f = Inr recs"
    and "filesLength + length recs \<le> 100"
  shows "files (processFiles jszip filesLength [f] s) = files s @ recs"
    and "error (processFiles jszip filesLength [f] s) = None"
  using assms by (simp_all add: processFiles_def MAX_FILES_def Let_def)

text \<open>
  Claim C6. When an archive is expanded, exactly its members that are not directories and
  whose names end in .md, .markdown or .csv, in any letter case, are converted and added,
  in their order: each gives one record, with the member's name, and as content the
  member's text, turned into a Markdown table when the name ends in .csv. Every other
  member (a directory, another extension) is skipped and does not stop the expansion. A
  dropped file whose name ends in none of .md, .markdown, .csv and .zip is ignored
  without a word: it yields no record and no error.
\<close>

theorem archive_members_filtered:
  "(is_zip_name (file_name f) \<and> file_zip f = Some entries \<and> handleFile jszip f = Inr recs \<longrightarrow>
      list_all2
        (\<lambda>z r. \<exists>content. entry_string z = Some content \<and>
           uf_name r = entry_name z \<and>
           uf_content r =
             (if is_csv_name (entry_name z) then csvToMarkdownTable content else content) \<and>
           uf_id r = entry_name z @ ''-'' @ decimal (entry_now z) @ ''-'' @ entry_random z)
        (filter (\<lambda>z. \<not> entry_dir z \<and> is_doc_name (entry_name z)) entries) recs) \<and>
   (is_zip_name (file_name f) \<and> file_size f \<le> 25 * 1024 * 1024 \<and> jszip \<and>
    file_zip f = Some entries \<and>
    (\<forall>z \<in> set entries. \<not> entry_dir z \<and> is_doc_name (entry_name z) \<longrightarrow> entry_string z \<noteq> None) \<longrightarrow>
      (\<exists>recs. handleFile jszip f = Inr recs)) \<and>
   (\<not> is_zip_name (file_name f) \<and> \<not> is_doc_name (file_name f) \<longrightarrow>
      handleFile jszip f = Inr []) \<and>
   (filesLength < 100 \<and> handleFile jszip f = Inr recs \<and> filesLength + length recs \<le> 100 \<longrightarrow>
      files (processFiles jszip filesLength [f] s) = files s @ recs \<and>
      error (processFiles jszip filesLength [f] s) = None) \<and>
   is_doc_name name =
     (\<exists>stem ext. name = stem @ ext \<and>
        (\<exists>e \<in> set [''.md'', ''.markdown'', ''.csv'']. map canonicalize ext = map canonicalize e)) \<and>
   is_csv_name name =
     (\<exists>stem ext. name = stem @ ext \<and> map canonicalize ext = map canonicalize ''.csv'')"
proof (intro conjI impI)
  assume "is_zip_name (file_name f) \<and> file_zip f = Some entries \<and> handleFile jszip f = Inr recs"
  then show "list_all2
        (\<lambda>z r. \<exists>content. entry_string z = Some content \<and>
           uf_name r = entry_name z \<and>
           uf_content r =
             (if is_csv_name (entry_name z) then csvToMarkdownTable content else content) \<and>
           uf_id r = entry_name z @ ''-'' @ decimal (entry_now z) @ ''-'' @ entry_random z)
        (filter (\<lambda>z. \<not> entry_dir z \<and> is_doc_name (entry_name z)) entries) recs"
    using handleFile_zip_members [of f entries jszip recs] by simp
next
  assume a: "is_zip_name (file_name f) \<and> file_size f \<le> 25 * 1024 * 1024 \<and> jszip \<and>
    file_zip f = Some entries \<and>
    (\<forall>z \<in> set entries. \<not> entry_dir z \<and> is_doc_name (entry_name z) \<longrightarrow> entry_string z \<noteq> None)"
  show "\<exists>recs. handleFile jszip f = Inr recs"
  proof (rule handleFile_zip_resolves)
    from a show "is_zip_name (file_name f)" "file_size f \<le> 25 * 1024 * 1024" "jszip"
      "file_zip f = Some entries"
      by simp_all
    fix z
    assume "z \<in> set entries" "\<not> entry_dir z" "is_doc_name (entry_name z)"
    with a show "entry_string z \<noteq> None"
      by blast
  qed
next
  assume "\<not> is_zip_name (file_name f) \<and> \<not> is_doc_name (file_name f)"
  then show "handleFile jszip f = Inr []"
    by (simp add: handleFile_unsupported)
next
  assume a: "filesLength < 100 \<and> handleFile jszip f = Inr recs \<and>
    filesLength + length recs \<le> 100"
  then show "files (processFiles jszip filesLength [f] s) = files s @ recs"
    by (intro processFiles_single(1)) simp_all
  from a show "error (processFiles jszip filesLength [f] s) = None"
    by (intro processFiles_single(2) [of filesLength jszip f recs]) simp_all
next
  show "is_doc_name name =
     (\<exists>stem ext. name = stem @ ext \<and>
        (\<exists>e \<in> set [''.md'', ''.markdown'', ''.csv'']. map canonicalize ext = map canonicalize e))"
    unfolding is_doc_name_def regex_test_suffix ext_at_def doc_exts_def ..
next
  show "is_csv_name name =
     (\<exists>stem ext. name = stem @ ext \<and> map canonicalize ext = map canonicalize ''.csv'')"
    unfolding is_csv_name_def regex_test_suffix ext_at_def by simp
qed

theorem archive_members_filtered_witness:
  "handleFile True
     \<lparr>file_name = ''docs.zip'', file_size = 900, file_text = None,
      file_zip = Some
        [\<lparr>entry_name = ''d/'', entry_dir = True, entry_string = None,
          entry_now = 6, entry_random = ''0.75''\<rparr>,
         \<lparr>entry_name = ''d/x.MD'', entry_dir = False, entry_string = Some ''hi'',
          entry_now = 7, entry_random = ''0.5''\<rparr>,
         \<lparr>entry_name = ''d/p.png'', entry_dir = False, entry_string = None,
          entry_now = 9, entry_random = ''0.125''\<rparr>,
         \<lparr>entry_name = ''t.csv'', entry_dir = False, entry_string = Some ''a,b'',
          entry_now = 8, entry_random = ''0.25''\<rparr>],
      file_now = 5, file_random = ''0.0625''\<rparr> =
     Inr [\<lparr>uf_id = ''d/x.MD-7-0.5'', uf_name = ''d/x.MD'', uf_content = ''hi''\<rparr>,
          \<lparr>uf_id = ''t.csv-8-0.25'', uf_name = ''t.csv'',
           uf_content = ''| a | b |\<newline>| --- | --- |\<newline>''\<rparr>] \<and>
   handleFile True
     \<lparr>file_name = ''p.png'', file_size = 12, file_text = Some ''x'', file_zip = None,
      file_now = 7, file_random = ''0.5''\<rparr> = Inr [] \<and>
   files (processFiles True 0
     [\<lparr>file_name = ''p.png'', file_size = 12, file_text = Some ''x'', file_zip = None,
       file_now = 7, file_random = ''0.5''\<rparr>] initial_state) = [] \<and>
   error (processFiles True 0
     [\<lparr>file_name = ''p.png'', file_size = 12, file_text = Some ''x'', file_zip = None,
       file_now = 7, file_random = ''0.5''\<rparr>] initial_state) = None"
proof -
  let ?dir = "\<lparr>entry_name = ''d/'', entry_dir = True, entry_string = None,
          entry_now = 6, entry_random = ''0.75''\<rparr>"
  let ?x = "\<lparr>entry_name = ''d/x.MD'', entry_dir = False, entry_string = Some ''hi'',
          entry_now = 7, entry_random = ''0.5''\<rparr>"
  let ?p = "\<lparr>entry_name = ''d/p.png'', entry_dir = False, entry_string = None,
          entry_now = 9, entry_random = ''0.125''\<rparr>"
  let ?t = "\<lparr>entry_name = ''t.csv'', entry_dir = False, entry_string = Some ''a,b'',
          entry_now = 8, entry_random = ''0.25''\<rparr>"
  let ?entries = "[?dir, ?x, ?p, ?t]"
  let ?z = "\<lparr>file_name = ''docs.zip'', file_size = 900, file_text = None,
      file_zip = Some ?entries, file_now = 5, file_random = ''0.0625''\<rparr>"
  let ?png = "\<lparr>file_name = ''p.png'', file_size = 12, file_text = Some ''x'', file_zip = None,
      file_now = 7, file_random = ''0.5''\<rparr>"
  let ?rx = "\<lparr>uf_id = ''d/x.MD-7-0.5'', uf_name = ''d/x.MD'', uf_content = ''hi''\<rparr>"
  let ?rt = "\<lparr>uf_id = ''t.csv-8-0.25'', uf_name = ''t.csv'',
           uf_content = ''| a | b |\<newline>| --- | --- |\<newline>''\<rparr>"
  note t = archive_members_filtered [of ?z ?entries True _ 0 initial_state]
  note u = archive_members_filtered [of ?png _ True "[]" 0 initial_state]
  have names: "is_zip_name ''docs.zip''" "\<not> is_doc_name ''d/''" "is_doc_name ''d/x.MD''"
    "\<not> is_doc_name ''d/p.png''" "is_doc_name ''t.csv''"
    "\<not> is_zip_name ''p.png''" "\<not> is_doc_name ''p.png''"
    "\<not> is_csv_name ''d/x.MD''" "is_csv_name ''t.csv''"
    by code_simp+
  have table: "csvToMarkdownTable ''a,b'' = ''| a | b |\<newline>| --- | --- |\<newline>''"
    by code_simp
  have digits: "decimal 7 = ''7''" "decimal 8 = ''8''"
    by (simp_all add: decimal.simps [of 7] decimal.simps [of 8])
  have readable: "is_zip_name (file_name ?z) \<and> file_size ?z \<le> 25 * 1024 * 1024 \<and> True \<and>
    file_zip ?z = Some ?entries \<and>
    (\<forall>z \<in> set ?entries. \<not> entry_dir z \<and> is_doc_name (entry_name z) \<longrightarrow> entry_string z \<noteq> None)"
    by (simp add: names)
  from t [THEN conjunct2, THEN conjunct1, THEN mp, OF readable]
  obtain recs where r: "handleFile True ?z = Inr recs" ..
  have given: "is_zip_name (file_name ?z) \<and> file_zip ?z = Some ?entries \<and>
      handleFile True ?z = Inr recs"
    using r by (simp add: names)
  have "list_all2
        (\<lambda>z r. \<exists>content. entry_string z = Some content \<and>
           uf_name r = entry_name z \<and>
           uf_content r =
             (if is_csv_name (entry_name z) then csvToMarkdownTable content else content) \<and>
           uf_id r = entry_name z @ ''-'' @ decimal (entry_now z) @ ''-'' @ entry_random z)
        (filter (\<lambda>z. \<not> entry_dir z \<and> is_doc_name (entry_name z)) ?entries) recs"
    by (rule archive_members_filtered [of ?z ?entries True recs 0 initial_state,
          THEN conjunct1, THEN mp, OF given])
  then obtain r1 r2 where rs: "recs = [r1, r2]"
    and f1: "uf_name r1 = ''d/x.MD''" "uf_content r1 = ''hi''" "uf_id r1 = ''d/x.MD-7-0.5''"
    and f2: "uf_name r2 = ''t.csv''"
      "uf_content r2 = ''| a | b |\<newline>| --- | --- |\<newline>''" "uf_id r2 = ''t.csv-8-0.25''"
    by (auto simp: names table digits list_all2_Cons1)
  from f1 have "r1 = ?rx"
    by (cases r1) simp
  moreover from f2 have "r2 = ?rt"
    by (cases r2) simp
  ultimately have a: "handleFile True ?z = Inr [?rx, ?rt]"
    using r rs by simp
  have other: "\<not> is_zip_name (file_name ?png) \<and> \<not> is_doc_name (file_name ?png)"
    by (simp add: names)
  have b: "handleFile True ?png = Inr []"
    by (rule u [THEN conjunct2, THEN conjunct2, THEN conjunct1, THEN mp, OF other])
  have room: "(0::nat) < 100 \<and> handleFile True ?png = Inr [] \<and>
      0 + length ([] :: UploadedFile list) \<le> 100"
    using b by simp
  have c: "files (processFiles True 0 [?png] initial_state) = files initial_state @ [] \<and>
      error (processFiles True 0 [?png] initial_state) = None"
    by (rule u [THEN conjunct2, THEN conjunct2, THEN conjunct2, THEN conjunct1, THEN mp, OF room])
  have n: "files initial_state @ [] = []"
    by (simp add: initial_state_def)
  from a b c [unfolded n] show ?thesis
    by (intro conjI) simp_all
qed

section \<open>The cap on the file list\<close>

lemma processFiles_full:
  assumes "filesLength \<ge> 100"
  shows "processFiles jszip filesLength droppedFiles s =
           s\<lparr>error := Some ''You have reached the maximum of 100 files.''\<rparr>"
  using assms by (simp add: processFiles_def MAX_FILES_def decimal_100)

lemma processFiles_overflow:
  assumes "filesLength < 100"
    and "Promise_all (map (handleFile jszip) droppedFiles) = Inr nested"
    and "filesLength + length (concat nested) > 100"
  shows "files (processFiles jszip filesLength droppedFiles s) =
           files s @ take (100 - filesLength) (concat nested)"
    and "error (processFiles jszip filesLength droppedFiles s) =
           Some ''Adding these files would exceed the limit of 100. Only a portion were added.''"
  using assms by (simp_all add: processFiles_def MAX_FILES_def decimal_100 Let_def)

lemma processFiles_fits:
  assumes "filesLength < 100"
    and "Promise_all (map (handleFile jszip) droppedFiles) = Inr nested"
    and "filesLength + length (concat nested) \<le> 100"
  shows "files (processFiles jszip filesLength droppedFiles s) = files s @ concat nested"
    and "error (processFiles jszip filesLength droppedFiles s) = None"
  using assms by (simp_all add: processFiles_def MAX_FILES_def Let_def)

text \<open>
  A call that has the list to itself from its start to its end (the length its callback
  holds is the length of the list its update lands in) keeps a list of at most 100 files
  at most 100 long; so do removing a file and clearing the list.
\<close>

lemma processFiles_alone_bounded:
  assumes "length (files s) \<le> 100"
  shows "length (files (processFiles jszip (length (files s)) droppedFiles s)) \<le> 100"
proof (cases "Promise_all (map (handleFile jszip) droppedFiles)")
  case (Inl e)
  with assms show ?thesis
    by (simp add: processFiles_def)
next
  case (Inr nested)
  with assms show ?thesis
    by (simp add: processFiles_def MAX_FILES_def Let_def)
qed

lemma removeFile_bounded:
  assumes "length (files s) \<le> 100"
  shows "length (files (removeFile fileId s)) \<le> 100"
proof -
  have "length (filter (\<lambda>file. uf_id file \<noteq> fileId) (files s)) \<le> length (files s)"
    by (rule length_filter_le)
  with assms have "length (filter (\<lambda>file. uf_id file \<noteq> fileId) (files s)) \<le> 100"
    by (rule le_trans [rotated])
  then show ?thesis
    by (simp add: removeFile_def)
qed

lemma clearAll_bounded: "length (files (clearAll s)) \<le> 100"
  by (simp add: clearAll_def)

text \<open>Batches of small Markdown files, each read without error.\<close>

lemma md_name_is_doc: "is_doc_name (stem @ ''.md'')"
proof -
  have "stem @ ''.md'' = stem @ ''.md'' \<and> ext_at doc_exts ''.md''"
    by (simp add: ext_at_def doc_exts_def)
  then show ?thesis
    unfolding is_doc_name_def regex_test_suffix by blast
qed

lemma md_name_not_zip: "\<not> is_zip_name (stem @ ''.md'')"
proof
  assume "is_zip_name (stem @ ''.md'')"
  then obtain pre rest where
    split: "stem @ ''.md'' = pre @ rest" and ext: "map canonicalize rest = map canonicalize ''.zip''"
    unfolding is_zip_name_def regex_test_suffix ext_at_def by auto
  from ext have "length rest = 4"
    using length_map [of canonicalize rest] by simp
  then have ne: "rest \<noteq> []"
    by auto
  then have "last rest = last (pre @ rest)"
    by simp
  also have "\<dots> = CHR ''d''"
    unfolding split [symmetric] by simp
  finally have "canonicalize (last rest) = 68"
    by (simp add: canonicalize_def)
  moreover from ne have "canonicalize (last rest) = last (map canonicalize rest)"
    by (simp add: last_map)
  moreover have "last (map canonicalize ''.zip'') = 80"
    by (simp add: canonicalize_def)
  ultimately show False
    using ext by simp
qed

lemma readable_docs_resolve:
  assumes "\<And>f. f \<in> set fs \<Longrightarrow>
             \<not> is_zip_name (file_name f) \<and> is_doc_name (file_name f) \<and>
             file_size f \<le> 5 * 1024 * 1024 \<and> file_text f \<noteq> None"
  shows "\<exists>nested. Promise_all (map (handleFile jszip) fs) = Inr nested \<and>
           length (concat nested) = length fs"
  using assms
proof (induction fs)
  case Nil
  then show ?case by simp
next
  case (Cons f fs)
  then obtain nested where
    n: "Promise_all (map (handleFile jszip) fs) = Inr nested" "length (concat nested) = length fs"
    by auto
  from Cons.prems [of f] obtain content where "file_text f = Some content"
    by auto
  with Cons.prems [of f] have
    "handleFile jszip f =
       Inr [processSingleFile (file_now f) (file_random f) (file_name f) content]"
    by (simp add: handleFile_def MAX_FILE_SIZE_BYTES_def MAX_FILE_SIZE_MB_def)
  with n show ?case
    by simp
qed

text \<open>A small Markdown file, with a number for its name and its clock reading.\<close>

definition small_note :: "nat \<Rightarrow> File" where
  "small_note i =
     \<lparr>file_name = decimal i @ ''.md'', file_size = 12, file_text = Some ''x'',
      file_zip = None, file_now = i, file_random = ''0.5''\<rparr>"

lemma small_notes_added:
  assumes "filesLength + length is \<le> 100" and "filesLength < 100"
  shows "length (files (processFiles True filesLength (map small_note is) s)) =
           length (files s) + length is"
proof -
  have "\<exists>nested. Promise_all (map (handleFile True) (map small_note is)) = Inr nested \<and>
           length (concat nested) = length (map small_note is)"
  proof (rule readable_docs_resolve)
    fix f
    assume "f \<in> set (map small_note is)"
    then obtain i where "f = small_note i"
      by auto
    then show "\<not> is_zip_name (file_name f) \<and> is_doc_name (file_name f) \<and>
             file_size f \<le> 5 * 1024 * 1024 \<and> file_text f \<noteq> None"
      by (simp add: small_note_def md_name_is_doc md_name_not_zip)
  qed
  then obtain nested where
    n: "Promise_all (map (handleFile True) (map small_note is)) = Inr nested"
      "length (concat nested) = length is"
    by auto
  from assms n(2) have "filesLength + length (concat nested) \<le> 100"
    by simp
  from processFiles_fits(1) [OF assms(2) n(1) this] n(2) show ?thesis
    by simp
qed

text \<open>
  Claim C8 says that the file list never holds more than 100 entries: processFiles refuses
  to start on a list of 100 files and cuts a batch that would go beyond 100, so that the
  length is at most 100 after every operation. The guard and the cut read the length the
  callback holds from the time it was made, and the batch is appended, after the reads
  have been awaited, to the list as it is then. Two drops of 60 small Markdown files each,
  the second made while the reads of the first are still under way, both hold the length 0
  of the empty list; each appends its 60 records, and the list holds 120.
\<close>

theorem overlapping_drops_exceed_cap:
  "length (files initial_state) = 0 \<and>
   length (files (processFiles True 0 (map small_note [60..<120])
                    (processFiles True 0 (map small_note [0..<60]) initial_state))) = 120"
proof -
  have a: "length (files (processFiles True 0 (map small_note [0..<60]) initial_state)) = 60"
    using small_notes_added [of 0 "[0..<60]" initial_state] by (simp add: initial_state_def)
  have "length (files (processFiles True 0 (map small_note [60..<120])
                    (processFiles True 0 (map small_note [0..<60]) initial_state))) =
        length (files (processFiles True 0 (map small_note [0..<60]) initial_state)) + 60"
    using small_notes_added [of 0 "[60..<120]"
        "processFiles True 0 (map small_note [0..<60]) initial_state"]
    by simp
  with a show ?thesis
    by (simp add: initial_state_def)
qed

section \<open>The combined document, in the words of the specification\<close>

definition md_heading :: "string \<Rightarrow> string" where
  "md_heading fileName = ''# '' @ sanitizeFilenameForHeader fileName"

definition md_section :: "UploadedFile \<Rightarrow> string" where
  "md_section file = md_heading (uf_name file) @ [LF, LF] @ uf_content file"

definition md_rule :: string where
  "md_rule = [LF, LF] @ ''---'' @ [LF, LF]"

fun md_document :: "UploadedFile list \<Rightarrow> string" where
  "md_document [] = []"
| "md_document [file] = md_section file"
| "md_document (file # next # rest) = md_section file @ md_rule @ md_document (next # rest)"

lemma join_Cons:
  "ys \<noteq> [] \<Longrightarrow> join sep (x # ys) = x @ sep @ join sep ys"
  by (cases ys) simp_all

lemma join_append:
  "xs \<noteq> [] \<Longrightarrow> ys \<noteq> [] \<Longrightarrow> join sep (xs @ ys) = join sep xs @ sep @ join sep ys"
proof (induction xs)
  case Nil
  then show ?case by simp
next
  case (Cons x xs)
  show ?case
  proof (cases xs)
    case Nil
    with Cons.prems show ?thesis
      by (simp add: join_Cons)
  next
    case (Cons z zs)
    with Cons.prems Cons.IH show ?thesis
      by simp
  qed
qed

lemma md_document_join: "md_document fs = join md_rule (map md_section fs)"
  by (induction fs rule: md_document.induct) simp_all

lemma md_document_append:
  "fs \<noteq> [] \<Longrightarrow> gs \<noteq> [] \<Longrightarrow> md_document (fs @ gs) = md_document fs @ md_rule @ md_document gs"
  by (simp add: md_document_join join_append)

lemma combinedMarkdown_document:
  "isJoining s \<Longrightarrow> files s \<noteq> [] \<Longrightarrow> combinedMarkdown s = md_document (files s)"
proof -
  have "md_section = (\<lambda>file. ''# '' @ sanitizeFilenameForHeader (uf_name file)
                            @ [LF, LF] @ uf_content file)"
    by (rule ext) (simp add: md_section_def md_heading_def)
  moreover assume "isJoining s" "files s \<noteq> []"
  ultimately show ?thesis
    by (simp add: combinedMarkdown_def md_document_join md_rule_def del: append.simps)
qed

text \<open>
  Claim C3. With combine mode on and a file list that is not empty, the combined document
  is the sections of the files in list order, each section being the heading made from
  the file name, a blank line and the file's content, and a horizontal rule (\<open>---\<close> with a
  blank line on each side) stands between two sections that follow each other. With
  combine mode off, or with an empty list, the combined document is the empty string.
\<close>

theorem combined_document:
  "(\<not> isJoining s \<or> files s = [] \<longrightarrow> combinedMarkdown s = []) \<and>
   (isJoining s \<and> files s \<noteq> [] \<longrightarrow> combinedMarkdown s = md_document (files s)) \<and>
   md_document [file] = ''# '' @ sanitizeFilenameForHeader (uf_name file) @ [LF, LF] @ uf_content file \<and>
   (fs \<noteq> [] \<and> gs \<noteq> [] \<longrightarrow>
      md_document (fs @ gs) = md_document fs @ [LF, LF] @ ''---'' @ [LF, LF] @ md_document gs)"
proof (intro conjI impI)
  assume "\<not> isJoining s \<or> files s = []"
  then show "combinedMarkdown s = []"
    by (auto simp: combinedMarkdown_def)
next
  assume "isJoining s \<and> files s \<noteq> []"
  then show "combinedMarkdown s = md_document (files s)"
    by (simp add: combinedMarkdown_document)
next
  show "md_document [file] =
      ''# '' @ sanitizeFilenameForHeader (uf_name file) @ [LF, LF] @ uf_content file"
    by (simp add: md_section_def md_heading_def)
next
  assume "fs \<noteq> [] \<and> gs \<noteq> []"
  then show "md_document (fs @ gs) =
      md_document fs @ [LF, LF] @ ''---'' @ [LF, LF] @ md_document gs"
    using md_document_append [of fs gs] by (simp add: md_rule_def)
qed


theorem combined_document_witness:
  "combinedMarkdown
     (initial_state\<lparr>files :=
        [\<lparr>uf_id = ''a_b.md-7-0.5'', uf_name = ''a_b.md'', uf_content = ''hello''\<rparr>,
         \<lparr>uf_id = ''t.csv-8-0.25'', uf_name = ''t.csv'', uf_content = ''| x |''\<rparr>]\<rparr>) =
     ''# a'' @ [backslash] @ ''_b\<newline>\<newline>hello\<newline>\<newline>---\<newline>\<newline># t\<newline>\<newline>| x |'' \<and>
   combinedMarkdown
     (initial_state\<lparr>isJoining := False, files :=
        [\<lparr>uf_id = ''a_b.md-7-0.5'', uf_name = ''a_b.md'', uf_content = ''hello''\<rparr>]\<rparr>) = [] \<and>
   md_document
     ([\<lparr>uf_id = ''a_b.md-7-0.5'', uf_name = ''a_b.md'', uf_content = ''hello''\<rparr>]
      @ [\<lparr>uf_id = ''t.csv-8-0.25'', uf_name = ''t.csv'', uf_content = ''| x |''\<rparr>]) =
     md_document [\<lparr>uf_id = ''a_b.md-7-0.5'', uf_name = ''a_b.md'', uf_content = ''hello''\<rparr>]
       @ [LF, LF] @ ''---'' @ [LF, LF]
       @ md_document [\<lparr>uf_id = ''t.csv-8-0.25'', uf_name = ''t.csv'', uf_content = ''| x |''\<rparr>]"
proof -
  let ?a = "\<lparr>uf_id = ''a_b.md-7-0.5'', uf_name = ''a_b.md'', uf_content = ''hello''\<rparr>"
  let ?t = "\<lparr>uf_id = ''t.csv-8-0.25'', uf_name = ''t.csv'', uf_content = ''| x |''\<rparr>"
  let ?on = "initial_state\<lparr>files := [?a, ?t]\<rparr>"
  let ?off = "initial_state\<lparr>isJoining := False, files := [?a]\<rparr>"
  have on: "isJoining ?on \<and> files ?on \<noteq> []"
    by (simp add: initial_state_def)
  have off: "\<not> isJoining ?off \<or> files ?off = []"
    by simp
  have two: "[?a] \<noteq> [] \<and> [?t] \<noteq> []"
    by simp
  have doc: "md_document (files ?on) =
      ''# a'' @ [backslash] @ ''_b\<newline>\<newline>hello\<newline>\<newline>---\<newline>\<newline># t\<newline>\<newline>| x |''"
    by code_simp
  have a: "combinedMarkdown ?on = md_document (files ?on)"
    by (rule combined_document [of ?on, THEN conjunct2, THEN conjunct1, THEN mp, OF on])
  have b: "combinedMarkdown ?off = []"
    by (rule combined_document [of ?off, THEN conjunct1, THEN mp, OF off])
  have c: "md_document ([?a] @ [?t]) =
      md_document [?a] @ [LF, LF] @ ''---'' @ [LF, LF] @ md_document [?t]"
    by (rule combined_document [of _ _ "[?a]" "[?t]", THEN conjunct2, THEN conjunct2,
          THEN conjunct2, THEN mp, OF two])
  from a [unfolded doc] b c show ?thesis
    by (intro conjI)
qed

section \<open>The heading and the comma\<close>

text \<open>
  Claim C4 says that the heading of a file is \<open>'# '\<close> and the name without a closing .md,
  .markdown or .csv, with a backslash before each of the characters
  \<^verbatim>\<open>\ ` * _ { } [ ] ( ) # + - . !\<close> and before no other character. The character class of
  the source holds the range from plus to full stop, which also takes in the comma: on
  the name \<open>a,b.md\<close> the heading gets a backslash before the comma.
\<close>

theorem heading_escapes_comma:
  "sanitizeFilenameForHeader ''a,b.md'' = ''a'' @ [backslash] @ '',b'' \<and>
   md_heading ''a,b.md'' = ''# a'' @ [backslash] @ '',b''"
proof -
  have "sanitizeFilenameForHeader ''a,b.md'' = ''a'' @ [backslash] @ '',b''"
    by code_simp
  moreover have "md_heading ''a,b.md'' = ''# a'' @ [backslash] @ '',b''"
    by code_simp
  ultimately show ?thesis
    by (rule conjI)
qed

lemma code_unit_eq: "(of_char c = (of_char d :: nat)) = (c = d)"
  by simp

lemma plus_to_stop:
  "(of_char (CHR ''+'') \<le> (of_char c :: nat) \<and> (of_char c :: nat) \<le> of_char (CHR ''.'')) =
   (c \<in> set ''+,-.'')"
proof -
  have "(43 \<le> (of_char c :: nat) \<and> (of_char c :: nat) \<le> 46) =
        (of_char c = (43::nat) \<or> of_char c = (44::nat) \<or> of_char c = (45::nat) \<or> of_char c = (46::nat))"
    by arith
  moreover have "(of_char c = (43::nat)) = (c = CHR ''+'')"
    using code_unit_eq [of c "CHR ''+''"] by simp
  moreover have "(of_char c = (44::nat)) = (c = CHR '','')"
    using code_unit_eq [of c "CHR '',''"] by simp
  moreover have "(of_char c = (45::nat)) = (c = CHR ''-'')"
    using code_unit_eq [of c "CHR ''-''"] by simp
  moreover have "(of_char c = (46::nat)) = (c = CHR ''.'')"
    using code_unit_eq [of c "CHR ''.''"] by simp
  ultimately show ?thesis
    by simp
qed

lemma header_class_members:
  "header_class c = (c \<in> set (backslash # ''`*_{}[]()#+,-.!''))"
  unfolding header_class_def plus_to_stop by auto

lemma sanitizeFilenameForHeader_escapes:
  "sanitizeFilenameForHeader name =
     concat (map (\<lambda>c. if c \<in> set (backslash # ''`*_{}[]()#+,-.!'') then [backslash, c] else [c])
               (strip_doc_ext name))"
  by (simp only: sanitizeFilenameForHeader_def Let_def header_class_members)


lemma regex_remove_split:
  "regex_test at s \<Longrightarrow> \<exists>rest. s = regex_remove at s @ rest \<and> at rest"
proof (induction s)
  case Nil
  then show ?case by simp
next
  case (Cons c cs)
  show ?case
  proof (cases "at (c # cs)")
    case True
    then show ?thesis by simp
  next
    case False
    with Cons.prems have "regex_test at cs"
      by simp
    with Cons.IH obtain rest where "cs = regex_remove at cs @ rest" "at rest"
      by blast
    with False have "c # cs = regex_remove at (c # cs) @ rest \<and> at rest"
      by simp
    then show ?thesis ..
  qed
qed

lemma regex_remove_none: "\<not> regex_test at s \<Longrightarrow> at [] \<or> regex_remove at s = s"
  by (induction s) auto

lemma strip_doc_ext_cases:
  "(is_doc_name name \<longrightarrow>
      (\<exists>ext. name = strip_doc_ext name @ ext \<and>
         (\<exists>e \<in> set [''.md'', ''.markdown'', ''.csv'']. map canonicalize ext = map canonicalize e))) \<and>
   (\<not> is_doc_name name \<longrightarrow> strip_doc_ext name = name)"
proof (intro conjI impI)
  assume "is_doc_name name"
  then show "\<exists>ext. name = strip_doc_ext name @ ext \<and>
         (\<exists>e \<in> set [''.md'', ''.markdown'', ''.csv'']. map canonicalize ext = map canonicalize e)"
    unfolding is_doc_name_def strip_doc_ext_def
    using regex_remove_split [of "ext_at doc_exts" name]
    by (simp add: ext_at_def doc_exts_def)
next
  assume "\<not> is_doc_name name"
  moreover have "\<not> ext_at doc_exts []"
    by (simp add: ext_at_def doc_exts_def)
  ultimately show "strip_doc_ext name = name"
    unfolding is_doc_name_def strip_doc_ext_def
    using regex_remove_none [of "ext_at doc_exts" name] by blast
qed


section \<open>The JSON artifact\<close>

text \<open>The words of the specification: the pair of name and content of a file record.\<close>

definition name_content :: "UploadedFile \<Rightarrow> json" where
  "name_content file =
     JObject [(''name'', JString (uf_name file)), (''content'', JString (uf_content file))]"

lemma json_files_map:
  "json_files archive fs =
     archive @ map (\<lambda>file. (strip_doc_ext (uf_name file) @ ''.json'',
                              JSON_stringify (name_content file) 2)) fs"
  by (induction fs arbitrary: archive) (simp_all add: name_content_def Let_def)

lemma name_content_map:
  "map (\<lambda>file. JObject [(''name'', JString (uf_name file)), (''content'', JString (uf_content file))]) fs =
   map name_content fs"
  by (simp add: name_content_def)

lemma handleDownload_json_combined:
  assumes "jspdf w" "marked w" "DOMPurify w" "JSZip w"
    and "files s \<noteq> []" and "outputFormat s = JSON" and "isJoining s"
  shows "snd (handleDownload w createPdf s) =
           Some (Single_file ''rag-combined.json''
                   (JSON_stringify (JArray (map name_content (files s))) 2))"
  using assms by (simp add: handleDownload_def Let_def name_content_map)

lemma handleDownload_json_separate:
  assumes "jspdf w" "marked w" "DOMPurify w" "JSZip w"
    and "files s \<noteq> []" and "outputFormat s = JSON" and "\<not> isJoining s"
  shows "snd (handleDownload w createPdf s) =
           Some (Zip_archive ''rag-json.zip''
                   (map (\<lambda>file. (strip_doc_ext (uf_name file) @ ''.json'',
                                  JSON_stringify (name_content file) 2)) (files s)))"
  using assms by (simp add: handleDownload_def Let_def json_files_map)

lemma stringify_name_content:
  "JSON_stringify (name_content file) 2 =
     ''{'' @ [LF] @ ''  '' @ QuoteJSONString ''name'' @ '': '' @ QuoteJSONString (uf_name file)
       @ '','' @ [LF] @ ''  '' @ QuoteJSONString ''content'' @ '': ''
       @ QuoteJSONString (uf_content file) @ [LF] @ ''}''"
proof -
  have "replicate (min 2 10) (CHR '' '') = ''  ''"
    by (simp add: numeral_2_eq_2)
  then show ?thesis
    by (simp add: JSON_stringify_def name_content_def)
qed


text \<open>
  Claim C7. With JSON output selected and a file list that is not empty: with combine mode
  on, the artifact is the JSON serialization of the list of the pairs of name and content
  of the file records, in list order, the id left out; with combine mode off, one JSON
  object of name and content is serialized for each file into an archive entry named
  after the file with its extension stripped. (The download starts once the libraries of
  the page are loaded.)
\<close>

theorem json_artifact:
  "(jspdf w \<and> marked w \<and> DOMPurify w \<and> JSZip w \<and>
    files s \<noteq> [] \<and> outputFormat s = JSON \<and> isJoining s \<longrightarrow>
      snd (handleDownload w createPdf s) =
        Some (Single_file ''rag-combined.json''
                (JSON_stringify (JArray (map name_content (files s))) 2))) \<and>
   (jspdf w \<and> marked w \<and> DOMPurify w \<and> JSZip w \<and>
    files s \<noteq> [] \<and> outputFormat s = JSON \<and> \<not> isJoining s \<longrightarrow>
      snd (handleDownload w createPdf s) =
        Some (Zip_archive ''rag-json.zip''
                (map (\<lambda>file. (strip_doc_ext (uf_name file) @ ''.json'',
                               JSON_stringify (name_content file) 2)) (files s)))) \<and>
   name_content (file\<lparr>uf_id := other\<rparr>) = name_content file \<and>
   JSON_stringify (name_content file) 2 =
     ''{'' @ [LF] @ ''  '' @ QuoteJSONString ''name'' @ '': '' @ QuoteJSONString (uf_name file)
       @ '','' @ [LF] @ ''  '' @ QuoteJSONString ''content'' @ '': ''
       @ QuoteJSONString (uf_content file) @ [LF] @ ''}''"
proof (intro conjI impI)
  assume "jspdf w \<and> marked w \<and> DOMPurify w \<and> JSZip w \<and>
    files s \<noteq> [] \<and> outputFormat s = JSON \<and> isJoining s"
  then show "snd (handleDownload w createPdf s) =
        Some (Single_file ''rag-combined.json''
                (JSON_stringify (JArray (map name_content (files s))) 2))"
    by (intro handleDownload_json_combined) simp_all
next
  assume "jspdf w \<and> marked w \<and> DOMPurify w \<and> JSZip w \<and>
    files s \<noteq> [] \<and> outputFormat s = JSON \<and> \<not> isJoining s"
  then show "snd (handleDownload w createPdf s) =
        Some (Zip_archive ''rag-json.zip''
                (map (\<lambda>file. (strip_doc_ext (uf_name file) @ ''.json'',
                               JSON_stringify (name_content file) 2)) (files s)))"
    by (intro handleDownload_json_separate) simp_all
next
  show "name_content (file\<lparr>uf_id := other\<rparr>) = name_content file"
    by (simp add: name_content_def)
next
  show "JSON_stringify (name_content file) 2 =
     ''{'' @ [LF] @ ''  '' @ QuoteJSONString ''name'' @ '': '' @ QuoteJSONString (uf_name file)
       @ '','' @ [LF] @ ''  '' @ QuoteJSONString ''content'' @ '': ''
       @ QuoteJSONString (uf_content file) @ [LF] @ ''}''"
    by (rule stringify_name_content)
qed

theorem json_artifact_witness:
  "snd (handleDownload \<lparr>jspdf = True, marked = True, DOMPurify = True, JSZip = True\<rparr>
          (\<lambda>markdownContent title. Inr None)
          (initial_state\<lparr>outputFormat := JSON, files :=
             [\<lparr>uf_id = ''a.md-7-0.5'', uf_name = ''a.md'', uf_content = ''hi''\<rparr>,
              \<lparr>uf_id = ''t.csv-8-0.25'', uf_name = ''t.csv'', uf_content = ''| x |''\<rparr>]\<rparr>)) =
     Some (Single_file ''rag-combined.json''
       (''['' @ [LF] @ ''  {'' @ [LF]
        @ ''    '' @ [dquote] @ ''name'' @ [dquote] @ '': '' @ [dquote] @ ''a.md'' @ [dquote] @ '','' @ [LF]
        @ ''    '' @ [dquote] @ ''content'' @ [dquote] @ '': '' @ [dquote] @ ''hi'' @ [dquote] @ [LF]
        @ ''  },'' @ [LF] @ ''  {'' @ [LF]
        @ ''    '' @ [dquote] @ ''name'' @ [dquote] @ '': '' @ [dquote] @ ''t.csv'' @ [dquote] @ '','' @ [LF]
        @ ''    '' @ [dquote] @ ''content'' @ [dquote] @ '': '' @ [dquote] @ ''| x |'' @ [dquote] @ [LF]
        @ ''  }'' @ [LF] @ '']'')) \<and>
   snd (handleDownload \<lparr>jspdf = True, marked = True, DOMPurify = True, JSZip = True\<rparr>
          (\<lambda>markdownContent title. Inr None)
          (initial_state\<lparr>outputFormat := JSON, isJoining := False, files :=
             [\<lparr>uf_id = ''a.md-7-0.5'', uf_name = ''a.md'', uf_content = ''hi''\<rparr>,
              \<lparr>uf_id = ''t.csv-8-0.25'', uf_name = ''t.csv'', uf_content = ''| x |''\<rparr>]\<rparr>)) =
     Some (Zip_archive ''rag-json.zip''
       [(''a.json'',
         ''{'' @ [LF] @ ''  '' @ [dquote] @ ''name'' @ [dquote] @ '': '' @ [dquote] @ ''a.md'' @ [dquote] @ '','' @ [LF]
         @ ''  '' @ [dquote] @ ''content'' @ [dquote] @ '': '' @ [dquote] @ ''hi'' @ [dquote] @ [LF] @ ''}''),
        (''t.json'',
         ''{'' @ [LF] @ ''  '' @ [dquote] @ ''name'' @ [dquote] @ '': '' @ [dquote] @ ''t.csv'' @ [dquote] @ '','' @ [LF]
         @ ''  '' @ [dquote] @ ''content'' @ [dquote] @ '': '' @ [dquote] @ ''| x |'' @ [dquote] @ [LF] @ ''}'')])"
proof -
  let ?w = "\<lparr>jspdf = True, marked = True, DOMPurify = True, JSZip = True\<rparr>"
  let ?a = "\<lparr>uf_id = ''a.md-7-0.5'', uf_name = ''a.md'', uf_content = ''hi''\<rparr>"
  let ?t = "\<lparr>uf_id = ''t.csv-8-0.25'', uf_name = ''t.csv'', uf_content = ''| x |''\<rparr>"
  let ?on = "initial_state\<lparr>outputFormat := JSON, files := [?a, ?t]\<rparr>"
  let ?off = "initial_state\<lparr>outputFormat := JSON, isJoining := False, files := [?a, ?t]\<rparr>"
  let ?mk = "\<lambda>(markdownContent :: string) (title :: string). Inr None :: string + string option"
  have on: "jspdf ?w \<and> marked ?w \<and> DOMPurify ?w \<and> JSZip ?w \<and>
      files ?on \<noteq> [] \<and> outputFormat ?on = JSON \<and> isJoining ?on"
    by (simp add: initial_state_def)
  have off: "jspdf ?w \<and> marked ?w \<and> DOMPurify ?w \<and> JSZip ?w \<and>
      files ?off \<noteq> [] \<and> outputFormat ?off = JSON \<and> \<not> isJoining ?off"
    by simp
  have a: "snd (handleDownload ?w ?mk ?on) =
      Some (Single_file ''rag-combined.json''
              (JSON_stringify (JArray (map name_content (files ?on))) 2))"
    by (rule json_artifact [of ?w ?on ?mk, THEN conjunct1, THEN mp, OF on])
  have b: "snd (handleDownload ?w ?mk ?off) =
      Some (Zip_archive ''rag-json.zip''
              (map (\<lambda>file. (strip_doc_ext (uf_name file) @ ''.json'',
                             JSON_stringify (name_content file) 2)) (files ?off)))"
    by (rule json_artifact [of ?w ?off ?mk, THEN conjunct2, THEN conjunct1, THEN mp, OF off])
  have va: "JSON_stringify (JArray (map name_content (files ?on))) 2 =
       ''['' @ [LF] @ ''  {'' @ [LF]
        @ ''    '' @ [dquote] @ ''name'' @ [dquote] @ '': '' @ [dquote] @ ''a.md'' @ [dquote] @ '','' @ [LF]
        @ ''    '' @ [dquote] @ ''content'' @ [dquote] @ '': '' @ [dquote] @ ''hi'' @ [dquote] @ [LF]
        @ ''  },'' @ [LF] @ ''  {'' @ [LF]
        @ ''    '' @ [dquote] @ ''name'' @ [dquote] @ '': '' @ [dquote] @ ''t.csv'' @ [dquote] @ '','' @ [LF]
        @ ''    '' @ [dquote] @ ''content'' @ [dquote] @ '': '' @ [dquote] @ ''| x |'' @ [dquote] @ [LF]
        @ ''  }'' @ [LF] @ '']''"
    by code_simp
  have vb: "map (\<lambda>file. (strip_doc_ext (uf_name file) @ ''.json'',
                             JSON_stringify (name_content file) 2)) (files ?off) =
       [(''a.json'',
         ''{'' @ [LF] @ ''  '' @ [dquote] @ ''name'' @ [dquote] @ '': '' @ [dquote] @ ''a.md'' @ [dquote] @ '','' @ [LF]
         @ ''  '' @ [dquote] @ ''content'' @ [dquote] @ '': '' @ [dquote] @ ''hi'' @ [dquote] @ [LF] @ ''}''),
        (''t.json'',
         ''{'' @ [LF] @ ''  '' @ [dquote] @ ''name'' @ [dquote] @ '': '' @ [dquote] @ ''t.csv'' @ [dquote] @ '','' @ [LF]
         @ ''  '' @ [dquote] @ ''content'' @ [dquote] @ '': '' @ [dquote] @ ''| x |'' @ [dquote] @ [LF] @ ''}'')]"
    by code_simp
  from a [unfolded va] b [unfolded vb] show ?thesis
    by (intro conjI)
qed


end
